theory Spec2Isabelle
  imports Main "HOL-Library.Word" "HOL-Library.Multiset"
begin

section \<open>The work queue of the table synchroniser (sync\_queue.h)\<close>

text \<open>
  The header declares three structs: \<open>KeyRangeToCheck\<close>, \<open>TableJob\<close> and \<open>SyncQueue\<close>.
  Every public member function of \<open>SyncQueue\<close> takes the queue's mutex on entry and
  holds it until it returns, with one exception: \<open>borrow_work\<close> gives the mutex up
  inside \<open>cond.wait(lock)\<close>. An operation is therefore one atomic step on the queue,
  and \<open>borrow_work\<close> is a sequence of atomic passes, one per turn of its
  \<open>while (true)\<close> loop. The jobs are shared through \<open>shared_ptr\<close>; they live in an
  explicit store addressed by \<open>job_ptr\<close>.
\<close>

subsection \<open>Ranges and their priority\<close>

type_synonym size_t = "64 word"
type_synonym time_t = int

text \<open>Modelled from the spec: \<open>ColumnValues\<close> is declared in schema.h, which is not part of
  the sources; a composite primary-key value is taken as a list of column strings.\<close>
type_synonym ColumnValues = "string list"

type_synonym KeyRange = "ColumnValues \<times> ColumnValues"

record KeyRangeToCheck =
  key_range :: KeyRange
  estimated_rows_in_range :: size_t
  rows_to_hash :: size_t
  priority :: size_t

definition KeyRangeToCheck_new ::
  "ColumnValues \<Rightarrow> ColumnValues \<Rightarrow> size_t \<Rightarrow> size_t \<Rightarrow> size_t \<Rightarrow> KeyRangeToCheck" where
  "KeyRangeToCheck_new prev_key last_key est rows prio =
     \<lparr>key_range = (prev_key, last_key), estimated_rows_in_range = est,
      rows_to_hash = rows, priority = prio\<rparr>"

definition UNKNOWN_ROW_COUNT :: size_t where
  "UNKNOWN_ROW_COUNT = - 1"

definition lower_priority :: "KeyRangeToCheck \<Rightarrow> KeyRangeToCheck \<Rightarrow> bool" where
  "lower_priority l r = (priority l < priority r)"

subsection \<open>The priority queue of ranges\<close>

text \<open>\<open>ranges_to_check\<close> is a \<open>std::priority_queue\<close> over a \<open>deque\<close> with the comparison
  \<open>lower_priority\<close>. The adaptor belongs to the C++ library: \<open>push\<close> is \<open>push_back\<close>
  followed by \<open>push_heap\<close>, \<open>pop\<close> is \<open>pop_heap\<close> followed by \<open>pop_back\<close> and
  \<open>top\<close> is \<open>front\<close>. The two heap algorithms are written here as the usual binary
  heap in a sequence, the parent of position \<open>i\<close> at \<open>(i - 1) div 2\<close>. \<open>top\<close> and
  \<open>pop\<close> of an empty queue are undefined in C++ and give \<open>None\<close>.\<close>

definition iter_swap :: "nat \<Rightarrow> nat \<Rightarrow> 'a list \<Rightarrow> 'a list" where
  "iter_swap i j xs = xs[i := xs ! j, j := xs ! i]"

function push_heap_from :: "('a \<Rightarrow> 'a \<Rightarrow> bool) \<Rightarrow> nat \<Rightarrow> 'a list \<Rightarrow> 'a list" where
  "push_heap_from cmp i xs =
     (if i = 0 then xs
      else let parent = (i - 1) div 2
           in if cmp (xs ! parent) (xs ! i)
              then push_heap_from cmp parent (iter_swap parent i xs)
              else xs)"
  by pat_completeness auto
termination
  by (relation "measure (\<lambda>(cmp, i, xs). i)") auto

function adjust_heap :: "('a \<Rightarrow> 'a \<Rightarrow> bool) \<Rightarrow> nat \<Rightarrow> 'a list \<Rightarrow> 'a list" where
  "adjust_heap cmp i xs =
     (let l = 2 * i + 1; r = 2 * i + 2;
          m = (if l < length xs \<and> cmp (xs ! i) (xs ! l) then l else i);
          largest = (if r < length xs \<and> cmp (xs ! m) (xs ! r) then r else m)
      in if largest = i then xs else adjust_heap cmp largest (iter_swap i largest xs))"
  by pat_completeness auto
termination
  by (relation "measure (\<lambda>(cmp, i, xs). length xs - i)")
     (auto simp: iter_swap_def split: if_splits)

definition pq_push :: "('a \<Rightarrow> 'a \<Rightarrow> bool) \<Rightarrow> 'a \<Rightarrow> 'a list \<Rightarrow> 'a list" where
  "pq_push cmp x q = push_heap_from cmp (length q) (q @ [x])"

definition pq_top :: "'a list \<Rightarrow> 'a option" where
  "pq_top q = (case q of [] \<Rightarrow> None | x # _ \<Rightarrow> Some x)"

definition pq_pop :: "('a \<Rightarrow> 'a \<Rightarrow> bool) \<Rightarrow> 'a list \<Rightarrow> 'a list option" where
  "pq_pop cmp q =
     (if q = [] then None
      else Some (adjust_heap cmp 0 (butlast (iter_swap 0 (length q - 1) q))))"

text \<open>The heap property of the underlying sequence: no element is below its parent in
  the order of \<open>cmp\<close>.\<close>
definition is_heap :: "('a \<Rightarrow> 'a \<Rightarrow> bool) \<Rightarrow> 'a list \<Rightarrow> bool" where
  "is_heap cmp xs = (\<forall>i \<in> {1..<length xs}. \<not> cmp (xs ! ((i - 1) div 2)) (xs ! i))"

text \<open>The positions of the heap and the two states of a sequence in the middle of
  \<open>push_heap\<close> and of \<open>pop_heap\<close>: a heap but for the element at \<open>i\<close>, which may be
  above its parent (on the way up) or below its children (on the way down).\<close>
definition parent_of :: "nat \<Rightarrow> nat" where
  "parent_of j = (j - 1) div 2"

definition below_parent :: "KeyRangeToCheck list \<Rightarrow> nat \<Rightarrow> bool" where
  "below_parent xs j = (priority (xs ! j) \<le> priority (xs ! parent_of j))"

definition heap_except_up :: "KeyRangeToCheck list \<Rightarrow> nat \<Rightarrow> bool" where
  "heap_except_up xs i =
     ((\<forall>j. 0 < j \<and> j < length xs \<and> j \<noteq> i \<longrightarrow> below_parent xs j) \<and>
      (\<forall>j. 0 < i \<and> 0 < j \<and> j < length xs \<and> parent_of j = i \<longrightarrow>
           priority (xs ! j) \<le> priority (xs ! parent_of i)))"

definition heap_except_down :: "KeyRangeToCheck list \<Rightarrow> nat \<Rightarrow> bool" where
  "heap_except_down xs i =
     ((\<forall>j. 0 < j \<and> j < length xs \<and> parent_of j \<noteq> i \<longrightarrow> below_parent xs j) \<and>
      (\<forall>j. 0 < i \<and> 0 < j \<and> j < length xs \<and> parent_of j = i \<longrightarrow>
           priority (xs ! j) \<le> priority (xs ! parent_of i)))"

text \<open>The position that \<open>adjust_heap\<close> moves to: the larger child if it is above the
  element at \<open>i\<close>, else \<open>i\<close> itself.\<close>
definition largest_child :: "('a \<Rightarrow> 'a \<Rightarrow> bool) \<Rightarrow> nat \<Rightarrow> 'a list \<Rightarrow> nat" where
  "largest_child cmp i xs =
     (let l = 2 * i + 1; r = 2 * i + 2;
          m = (if l < length xs \<and> cmp (xs ! i) (xs ! l) then l else i)
      in if r < length xs \<and> cmp (xs ! m) (xs ! r) then r else m)"

datatype range_op = Push KeyRangeToCheck | Pop

text \<open>A history of a job's \<open>ranges_to_check\<close>: pushes and pops in the order they were
  made; \<open>None\<close> when a pop met the empty queue.\<close>
fun apply_range_ops :: "range_op list \<Rightarrow> KeyRangeToCheck list \<Rightarrow> KeyRangeToCheck list option" where
  "apply_range_ops [] q = Some q"
| "apply_range_ops (Push r # ops) q = apply_range_ops ops (pq_push lower_priority r q)"
| "apply_range_ops (Pop # ops) q =
     (case pq_pop lower_priority q of None \<Rightarrow> None | Some q' \<Rightarrow> apply_range_ops ops q')"

subsection \<open>Table jobs\<close>

text \<open>Modelled from the spec: \<open>Table\<close> (schema.h) and \<open>primary_key_subdividable\<close>
  (subdivision.h) are not part of the sources. A table descriptor is kept as the two
  observations the \<open>TableJob\<close> constructor makes of it: the identifier derived from its
  name and whether its key space supports subdivision.\<close>
record Table =
  id_from_name :: string
  primary_key_subdividable :: bool

record TableJob =
  table :: Table
  table_id :: string
  subdividable :: bool
  ranges_to_retrieve :: "KeyRange list"
  ranges_to_check :: "KeyRangeToCheck list"
  notify_when_work_could_be_shared :: bool
  time_started :: time_t
  time_finished :: time_t
  hash_commands :: size_t
  hash_commands_completed :: size_t
  rows_commands :: size_t

definition TableJob_new :: "Table \<Rightarrow> TableJob" where
  "TableJob_new t =
     \<lparr>table = t, table_id = id_from_name t, subdividable = primary_key_subdividable t,
      ranges_to_retrieve = [], ranges_to_check = [],
      notify_when_work_could_be_shared = False,
      time_started = 0, time_finished = 0,
      hash_commands = 0, hash_commands_completed = 0, rows_commands = 0\<rparr>"

definition TableJob_have_work_to_share :: "TableJob \<Rightarrow> bool" where
  "TableJob_have_work_to_share j = (ranges_to_check j \<noteq> [])"

subsection \<open>Ordered sets of job pointers\<close>

text \<open>A \<open>shared_ptr<TableJob>\<close> is the address of the job it shares. A
  \<open>std::set\<close> of them holds each address once and is walked in ascending order: it is
  kept as the list of its members in that order.\<close>

type_synonym job_ptr = nat

fun set_insert :: "job_ptr \<Rightarrow> job_ptr list \<Rightarrow> job_ptr list" where
  "set_insert p [] = [p]"
| "set_insert p (q # qs) =
     (if p < q then p # q # qs else if p = q then q # qs else q # set_insert p qs)"

fun set_erase :: "job_ptr \<Rightarrow> job_ptr list \<Rightarrow> job_ptr list" where
  "set_erase p [] = []"
| "set_erase p (q # qs) = (if p = q then qs else q # set_erase p qs)"

subsection \<open>The queue\<close>

datatype error = aborted_error

text \<open>What a call on the queue does with its caller: it returns a job pointer (null is
  \<open>None\<close>), throws, or is suspended in \<open>cond.wait(lock)\<close>.\<close>
datatype control = Return "job_ptr option" | Throw error | Wait

datatype signal = Cond | Borrowed_task_completed job_ptr

text \<open>Modelled from the spec: the base class \<open>AbortableBarrier\<close> (abortable\_barrier.h) is
  not part of the sources. Of it the queue reads the cancellation flag \<open>aborted\<close> and
  calls \<open>abort\<close>; its mutex and condition variable are the ones the queue's
  operations lock and signal.\<close>
record SyncQueue =
  aborted :: bool
  snapshot :: string
  sharing_work :: bool
  tables_to_process :: "job_ptr list"
  tables_being_processed :: "job_ptr list"
  tables_with_work_to_share :: "job_ptr list"
  heap :: "job_ptr \<rightharpoonup> TableJob"

definition SyncQueue_new :: "size_t \<Rightarrow> SyncQueue" where
  "SyncQueue_new workers =
     \<lparr>aborted = False, snapshot = [], sharing_work = False,
      tables_to_process = [], tables_being_processed = [], tables_with_work_to_share = [],
      heap = Map.empty\<rparr>"

text \<open>Modelled from the spec: \<open>AbortableBarrier::abort\<close> is idempotent cancellation, the
  first caller observes success and later callers do not.\<close>
definition AbortableBarrier_abort :: "SyncQueue \<Rightarrow> bool \<times> SyncQueue" where
  "AbortableBarrier_abort s = (\<not> aborted s, s\<lparr>aborted := True\<rparr>)"

text \<open>\<open>make_shared<TableJob>(from_table)\<close> allocates; the address that the allocator hands
  out comes with each table.\<close>
fun enqueue_tables_to_process :: "(job_ptr \<times> Table) list \<Rightarrow> SyncQueue \<Rightarrow> SyncQueue" where
  "enqueue_tables_to_process [] s = s"
| "enqueue_tables_to_process ((p, from_table) # tables) s =
     enqueue_tables_to_process tables
       (s\<lparr>heap := (heap s)(p \<mapsto> TableJob_new from_table),
          tables_to_process := tables_to_process s @ [p]\<rparr>)"

definition finished :: "SyncQueue \<Rightarrow> bool" where
  "finished s = (tables_to_process s = [] \<and> tables_being_processed s = [])"

definition start_sharing_work_in :: "job_ptr \<Rightarrow> SyncQueue \<Rightarrow> SyncQueue" where
  "start_sharing_work_in p s =
     (case heap s p of
        None \<Rightarrow> s
      | Some table_job \<Rightarrow>
          let s' = s\<lparr>heap := (heap s)(p \<mapsto> table_job\<lparr>notify_when_work_could_be_shared := True\<rparr>)\<rparr>
          in if TableJob_have_work_to_share table_job
             then s'\<lparr>tables_with_work_to_share := set_insert p (tables_with_work_to_share s')\<rparr>
             else s')"

definition start_sharing_work :: "SyncQueue \<Rightarrow> SyncQueue" where
  "start_sharing_work s =
     (let s1 = s\<lparr>sharing_work := True\<rparr>;
          s2 = fold start_sharing_work_in (tables_to_process s1) s1
      in fold start_sharing_work_in (tables_being_processed s2) s2)"

text \<open>\<open>table_job->have_work_to_share()\<close> through a pointer. A pointer held in one of
  the queue's collections keeps its job alive, so the store has a job there.\<close>
definition deref_have_work_to_share :: "(job_ptr \<rightharpoonup> TableJob) \<Rightarrow> job_ptr \<Rightarrow> bool" where
  "deref_have_work_to_share h p =
     (case h p of None \<Rightarrow> False | Some table_job \<Rightarrow> TableJob_have_work_to_share table_job)"

text \<open>The \<open>for\<close> loop of \<open>borrow_work\<close>: the iterator starts at \<open>begin()\<close>; the body
  returns the job under the iterator when it has work; otherwise the increment
  expression \<open>it = erase(it)\<close> drops that job and moves on. The result is the job found,
  if any, and what is left of the set.\<close>
fun scan_tables_with_work_to_share ::
  "(job_ptr \<rightharpoonup> TableJob) \<Rightarrow> job_ptr list \<Rightarrow> job_ptr option \<times> job_ptr list" where
  "scan_tables_with_work_to_share h [] = (None, [])"
| "scan_tables_with_work_to_share h (p # ps) =
     (if deref_have_work_to_share h p
      then (Some p, p # ps)
      else scan_tables_with_work_to_share h ps)"

text \<open>One pass of the \<open>while (true)\<close> loop of \<open>borrow_work\<close>, up to its \<open>return\<close> or
  its \<open>cond.wait(lock)\<close>. A worker that is woken from the wait runs the pass again.\<close>
definition borrow_work :: "SyncQueue \<Rightarrow> control \<times> SyncQueue" where
  "borrow_work s =
     (if finished s then (Return None, s)
      else case scan_tables_with_work_to_share (heap s) (tables_with_work_to_share s) of
             (Some table_job, rest) \<Rightarrow> (Return (Some table_job), s\<lparr>tables_with_work_to_share := rest\<rparr>)
           | (None, rest) \<Rightarrow> (Wait, s\<lparr>tables_with_work_to_share := rest\<rparr>))"

definition find_table_job :: "SyncQueue \<Rightarrow> control \<times> SyncQueue" where
  "find_table_job s =
     (if aborted s then (Throw aborted_error, s)
      else case tables_to_process s of
             [] \<Rightarrow> borrow_work (if \<not> sharing_work s then start_sharing_work s else s)
           | table_job # rest \<Rightarrow>
               (Return (Some table_job),
                s\<lparr>tables_to_process := rest,
                  tables_being_processed := set_insert table_job (tables_being_processed s)\<rparr>))"

definition completed_table :: "job_ptr \<Rightarrow> SyncQueue \<Rightarrow> signal list \<times> SyncQueue" where
  "completed_table table_job s =
     (let s' = s\<lparr>tables_with_work_to_share := set_erase table_job (tables_with_work_to_share s),
                 tables_being_processed := set_erase table_job (tables_being_processed s)\<rparr>
      in (if finished s' then [Cond] else [], s'))"

definition have_work_to_share :: "job_ptr \<Rightarrow> SyncQueue \<Rightarrow> signal list \<times> SyncQueue" where
  "have_work_to_share table_job s =
     ([Cond], s\<lparr>tables_with_work_to_share := set_insert table_job (tables_with_work_to_share s)\<rparr>)"

definition abort :: "SyncQueue \<Rightarrow> bool \<times> signal list \<times> SyncQueue" where
  "abort s =
     (let (result, s') = AbortableBarrier_abort s
      in (result, map Borrowed_task_completed (tables_being_processed s'), s'))"

subsection \<open>The workers around the queue\<close>

text \<open>Modelled from the spec: the worker code that drives a table is not part of the
  sources. Under the job's own mutex it pushes ranges that are ready to check and pops
  the one it checks next.\<close>
definition push_range_to_check :: "job_ptr \<Rightarrow> KeyRangeToCheck \<Rightarrow> SyncQueue \<Rightarrow> SyncQueue" where
  "push_range_to_check p r s =
     (case heap s p of
        None \<Rightarrow> s
      | Some table_job \<Rightarrow>
          s\<lparr>heap := (heap s)(p \<mapsto> table_job\<lparr>ranges_to_check :=
                 pq_push lower_priority r (ranges_to_check table_job)\<rparr>)\<rparr>)"

definition pop_range_to_check :: "job_ptr \<Rightarrow> SyncQueue \<Rightarrow> SyncQueue" where
  "pop_range_to_check p s =
     (case heap s p of
        None \<Rightarrow> s
      | Some table_job \<Rightarrow>
          (case pq_pop lower_priority (ranges_to_check table_job) of
             None \<Rightarrow> s
           | Some q \<Rightarrow> s\<lparr>heap := (heap s)(p \<mapsto> table_job\<lparr>ranges_to_check := q\<rparr>)\<rparr>))"

text \<open>The calls that reach a queue, one atomic step each. \<open>Wake_in_borrow_work\<close> is a
  worker leaving \<open>cond.wait(lock)\<close>, notified or spuriously, for another pass of
  \<open>borrow_work\<close>.\<close>
datatype event =
    Enqueue_tables_to_process "(job_ptr \<times> Table) list"
  | Find_table_job
  | Wake_in_borrow_work
  | Completed_table job_ptr
  | Have_work_to_share job_ptr
  | Abort
  | Push_range_to_check job_ptr KeyRangeToCheck
  | Pop_range_to_check job_ptr

fun perform :: "event \<Rightarrow> SyncQueue \<Rightarrow> SyncQueue" where
  "perform (Enqueue_tables_to_process tables) s = enqueue_tables_to_process tables s"
| "perform Find_table_job s = snd (find_table_job s)"
| "perform Wake_in_borrow_work s = snd (borrow_work s)"
| "perform (Completed_table p) s = snd (completed_table p s)"
| "perform (Have_work_to_share p) s = snd (have_work_to_share p s)"
| "perform Abort s = snd (snd (abort s))"
| "perform (Push_range_to_check p r) s = push_range_to_check p r s"
| "perform (Pop_range_to_check p) s = pop_range_to_check p s"

text \<open>What a caller can pass: the allocator hands out addresses that are not in use, and
  a job pointer in a caller's hands is one that \<open>find_table_job\<close> returned, so it
  points to a job. A pop needs a range to pop.\<close>
fun possible :: "event \<Rightarrow> SyncQueue \<Rightarrow> bool" where
  "possible (Enqueue_tables_to_process tables) s =
     (distinct (map fst tables) \<and> (\<forall>p \<in> set (map fst tables). heap s p = None))"
| "possible (Completed_table p) s = (heap s p \<noteq> None)"
| "possible (Have_work_to_share p) s = (heap s p \<noteq> None)"
| "possible (Push_range_to_check p r) s = (heap s p \<noteq> None)"
| "possible (Pop_range_to_check p) s =
     (case heap s p of None \<Rightarrow> False | Some table_job \<Rightarrow> ranges_to_check table_job \<noteq> [])"
| "possible e s = True"

text \<open>The stricter discipline of the worker code: work is offered for a job only while
  some worker owns that job.\<close>
fun offered_while_owned :: "event \<Rightarrow> SyncQueue \<Rightarrow> bool" where
  "offered_while_owned (Have_work_to_share p) s = (p \<in> set (tables_being_processed s))"
| "offered_while_owned e s = possible e s"

fun run :: "(event \<Rightarrow> SyncQueue \<Rightarrow> bool) \<Rightarrow> event list \<Rightarrow> SyncQueue \<Rightarrow> SyncQueue option" where
  "run ok [] s = Some s"
| "run ok (e # es) s = (if ok e s then run ok es (perform e s) else None)"

text \<open>The claims of a single worker, one after the other: what each call did.\<close>
fun find_table_jobs :: "nat \<Rightarrow> SyncQueue \<Rightarrow> control list" where
  "find_table_jobs 0 s = []"
| "find_table_jobs (Suc n) s = fst (find_table_job s) # find_table_jobs n (snd (find_table_job s))"

subsection \<open>Concrete runs\<close>

definition T1 :: Table where
  "T1 = \<lparr>id_from_name = ''t1'', primary_key_subdividable = True\<rparr>"

definition T2 :: Table where
  "T2 = \<lparr>id_from_name = ''t2'', primary_key_subdividable = False\<rparr>"

definition range_a :: KeyRangeToCheck where
  "range_a = KeyRangeToCheck_new [] [''100''] 100 50 3"

definition range_b :: KeyRangeToCheck where
  "range_b = KeyRangeToCheck_new [''100''] [''200''] UNKNOWN_ROW_COUNT 50 7"

definition range_c :: KeyRangeToCheck where
  "range_c = KeyRangeToCheck_new [''200''] [] 40 40 5"

text \<open>One table at address 1, claimed by its owner.\<close>
definition owned_T1 :: SyncQueue where
  "owned_T1 = snd (find_table_job (enqueue_tables_to_process [(1, T1)] (SyncQueue_new 2)))"

text \<open>The owner has made one range ready and offered the job.\<close>
definition offered_T1 :: SyncQueue where
  "offered_T1 = snd (have_work_to_share 1 (push_range_to_check 1 range_a owned_T1))"

text \<open>A second worker has asked for a job, found none and waits; then the run is
  aborted.\<close>
definition aborted_while_waiting :: SyncQueue where
  "aborted_while_waiting = snd (snd (abort (snd (find_table_job owned_T1))))"

text \<open>The owner has made three ranges ready, of priorities 3, 7 and 5.\<close>
definition three_ready_T1 :: SyncQueue where
  "three_ready_T1 =
     push_range_to_check 1 range_c (push_range_to_check 1 range_b (push_range_to_check 1 range_a owned_T1))"

text \<open>The owner has reported the table complete.\<close>
definition completed_T1 :: SyncQueue where
  "completed_T1 = snd (completed_table 1 owned_T1)"

text \<open>After table 1 was completed, a second table is enqueued and claimed.\<close>
definition reused_after_T1 :: SyncQueue where
  "reused_after_T1 = snd (find_table_job (enqueue_tables_to_process [(2, T2)] completed_T1))"

text \<open>The owner has made one range ready before any worker needed to borrow.\<close>
definition ready_T1 :: SyncQueue where
  "ready_T1 = push_range_to_check 1 range_a owned_T1"

text \<open>Two tables, each claimed by a worker.\<close>
definition owned_T1_T2 :: SyncQueue where
  "owned_T1_T2 = snd (find_table_job (snd (find_table_job
      (enqueue_tables_to_process [(1, T1), (2, T2)] (SyncQueue_new 2)))))"

text \<open>Both jobs are in the set of jobs with work to share; only the second has a range.\<close>
definition stale_T1_ready_T2 :: SyncQueue where
  "stale_T1_ready_T2 =
     snd (have_work_to_share 2 (push_range_to_check 2 range_b (snd (have_work_to_share 1 owned_T1_T2))))"

text \<open>The run is aborted while a table is still waiting to be claimed.\<close>
definition aborted_before_claim :: SyncQueue where
  "aborted_before_claim = snd (snd (abort (enqueue_tables_to_process [(1, T1)] (SyncQueue_new 2))))"

subsection \<open>Invariants\<close>

text \<open>The two sets are sets (ascending, so without repetition), a job waits in the queue
  at most once, no job is both waiting and claimed, and every pointer in the queue or
  in the claimed set points to a job.\<close>
definition queue_inv :: "SyncQueue \<Rightarrow> bool" where
  "queue_inv s =
     (sorted_wrt (<) (tables_being_processed s) \<and>
      sorted_wrt (<) (tables_with_work_to_share s) \<and>
      distinct (tables_to_process s) \<and>
      set (tables_to_process s) \<inter> set (tables_being_processed s) = {} \<and>
      (\<forall>p \<in> set (tables_to_process s) \<union> set (tables_being_processed s). heap s p \<noteq> None))"

definition shareable_owned :: "SyncQueue \<Rightarrow> bool" where
  "shareable_owned s = (set (tables_with_work_to_share s) \<subseteq> set (tables_being_processed s))"

definition held_once :: "job_ptr \<Rightarrow> SyncQueue \<Rightarrow> bool" where
  "held_once p s = (heap s p \<noteq> None \<longrightarrow>
     (p \<in> set (tables_to_process s)) \<noteq> (p \<in> set (tables_being_processed s)))"

text \<open>A job that has left the queue for good: it exists and is neither pending nor
  claimed.\<close>
definition retired :: "job_ptr \<Rightarrow> SyncQueue \<Rightarrow> bool" where
  "retired p s =
     (heap s p \<noteq> None \<and> p \<notin> set (tables_to_process s) \<and> p \<notin> set (tables_being_processed s))"

text \<open>The ready ranges of every job are a heap.\<close>
definition ranges_ordered :: "SyncQueue \<Rightarrow> bool" where
  "ranges_ordered s = (\<forall>p j. heap s p = Some j \<longrightarrow> is_heap lower_priority (ranges_to_check j))"

text \<open>What \<open>start_sharing_work_in\<close> does to a job.\<close>
definition publish :: "TableJob \<Rightarrow> TableJob" where
  "publish j = j\<lparr>notify_when_work_could_be_shared := True\<rparr>"

section \<open>The priority queue\<close>

declare push_heap_from.simps [simp del] adjust_heap.simps [simp del]

lemma parent_of_less: "0 < j \<Longrightarrow> parent_of j < j"
  unfolding parent_of_def by arith

lemma parent_of_child: "0 < j \<Longrightarrow> (parent_of j = i) = (j = 2 * i + 1 \<or> j = 2 * i + 2)"
  unfolding parent_of_def by arith

lemma length_iter_swap [simp]: "length (iter_swap i j xs) = length xs"
  by (simp add: iter_swap_def)

lemma iter_swap_fst: "i < length xs \<Longrightarrow> j < length xs \<Longrightarrow> iter_swap i j xs ! i = xs ! j"
  by (cases "i = j") (simp_all add: iter_swap_def)

lemma iter_swap_snd: "i < length xs \<Longrightarrow> j < length xs \<Longrightarrow> iter_swap i j xs ! j = xs ! i"
  by (simp add: iter_swap_def)

lemma iter_swap_other: "k \<noteq> i \<Longrightarrow> k \<noteq> j \<Longrightarrow> iter_swap i j xs ! k = xs ! k"
  by (simp add: iter_swap_def)

lemma mset_iter_swap:
  "i < length xs \<Longrightarrow> j < length xs \<Longrightarrow> mset (iter_swap i j xs) = mset xs"
  by (simp add: iter_swap_def mset_swap)

lemma push_heap_from_0: "push_heap_from cmp 0 xs = xs"
  by (subst push_heap_from.simps) simp

lemma push_heap_from_swap:
  "0 < i \<Longrightarrow> cmp (xs ! parent_of i) (xs ! i) \<Longrightarrow>
     push_heap_from cmp i xs = push_heap_from cmp (parent_of i) (iter_swap (parent_of i) i xs)"
  by (subst push_heap_from.simps) (simp add: Let_def parent_of_def)

lemma push_heap_from_stop:
  "0 < i \<Longrightarrow> \<not> cmp (xs ! parent_of i) (xs ! i) \<Longrightarrow> push_heap_from cmp i xs = xs"
  by (subst push_heap_from.simps) (simp add: Let_def parent_of_def)

lemma adjust_heap_unfold:
  "adjust_heap cmp i xs =
     (if largest_child cmp i xs = i then xs
      else adjust_heap cmp (largest_child cmp i xs) (iter_swap i (largest_child cmp i xs) xs))"
  by (subst adjust_heap.simps) (simp add: largest_child_def Let_def)

lemma is_heap_below_parent:
  "is_heap lower_priority xs = (\<forall>j. 0 < j \<and> j < length xs \<longrightarrow> below_parent xs j)"
  by (auto simp: is_heap_def lower_priority_def below_parent_def parent_of_def not_less)

lemma push_heap_step:
  assumes h: "heap_except_up xs i" and i: "0 < i" "i < length xs"
    and c: "priority (xs ! parent_of i) < priority (xs ! i)"
  shows "heap_except_up (iter_swap (parent_of i) i xs) (parent_of i)"
proof -
  define p where "p = parent_of i"
  define ys where "ys = iter_swap p i xs"
  have p: "p < i" "p < length xs" using i parent_of_less[of i] by (simp_all add: p_def)
  have yi: "ys ! i = xs ! p" and yp: "ys ! p = xs ! i"
    using p i by (simp_all add: ys_def iter_swap_fst iter_swap_snd)
  have yk: "ys ! k = xs ! k" if "k \<noteq> i" "k \<noteq> p" for k
    using that by (simp add: ys_def iter_swap_other)
  have bp: "priority (xs ! j) \<le> priority (xs ! parent_of j)"
    if "0 < j" "j < length xs" "j \<noteq> i" for j
    using h that by (simp add: heap_except_up_def below_parent_def)
  have gp: "priority (xs ! j) \<le> priority (xs ! p)"
    if "0 < j" "j < length xs" "parent_of j = i" for j
    using h i that by (simp add: heap_except_up_def p_def)
  have one: "priority (ys ! j) \<le> priority (ys ! parent_of j)"
    if j: "0 < j" "j < length xs" "j \<noteq> p" for j
  proof -
    define q where "q = parent_of j"
    have q: "q < j" using j parent_of_less[of j] by (simp add: q_def)
    consider "j = i" | "j \<noteq> i" "q = i" | "j \<noteq> i" "q = p" | "j \<noteq> i" "q \<noteq> i" "q \<noteq> p" by blast
    then have "priority (ys ! j) \<le> priority (ys ! q)"
    proof cases
      case 1
      then have "q = p" by (simp add: q_def p_def)
      with 1 c yi yp show ?thesis by (simp add: p_def)
    next
      case 2
      then have "parent_of j = i" by (simp add: q_def)
      from gp[OF j(1) j(2) this] 2 yk[of j] j(3) yi show ?thesis by simp
    next
      case 3
      from bp[OF j(1) j(2) 3(1)] 3 have "priority (xs ! j) \<le> priority (xs ! p)" by (simp add: q_def)
      with c have "priority (xs ! j) \<le> priority (xs ! i)" by (simp add: p_def)
      with 3 yk[of j] j(3) yp show ?thesis by simp
    next
      case 4
      from bp[OF j(1) j(2) 4(1)] have "priority (xs ! j) \<le> priority (xs ! q)" by (simp add: q_def)
      with 4 yk[of j] yk[of q] j(3) show ?thesis by simp
    qed
    then show ?thesis by (simp add: q_def)
  qed
  have two: "priority (ys ! j) \<le> priority (ys ! parent_of p)"
    if j: "0 < p" "0 < j" "j < length xs" "parent_of j = p" for j
  proof -
    define g where "g = parent_of p"
    have g: "g < p" using j(1) parent_of_less[of p] by (simp add: g_def)
    have pg: "priority (xs ! p) \<le> priority (xs ! g)"
      using bp[of p] j(1) p by (simp add: g_def)
    have yg: "ys ! g = xs ! g" using yk[of g] g p by simp
    have "priority (ys ! j) \<le> priority (ys ! g)"
    proof (cases "j = i")
      case True
      with pg yg yi show ?thesis by simp
    next
      case False
      have jp: "j \<noteq> p" using j(2,4) parent_of_less[of j] by auto
      have "priority (xs ! j) \<le> priority (xs ! p)"
        using bp[OF j(2) j(3) False] j(4) by simp
      with pg yg yk[OF False jp] show ?thesis by simp
    qed
    then show ?thesis by (simp add: g_def)
  qed
  have "heap_except_up ys p"
    unfolding heap_except_up_def below_parent_def using one two by (simp add: ys_def)
  then show ?thesis by (simp add: ys_def p_def)
qed

lemma push_heap_from_is_heap:
  "heap_except_up xs i \<Longrightarrow> i < length xs \<Longrightarrow> is_heap lower_priority (push_heap_from lower_priority i xs)"
proof (induction i arbitrary: xs rule: less_induct)
  case (less i)
  show ?case
  proof (cases "i = 0")
    case True
    with less.prems show ?thesis
      by (simp add: push_heap_from_0 is_heap_below_parent heap_except_up_def)
  next
    case False
    then have i: "0 < i" by simp
    show ?thesis
    proof (cases "lower_priority (xs ! parent_of i) (xs ! i)")
      case True
      then have c: "priority (xs ! parent_of i) < priority (xs ! i)" by (simp add: lower_priority_def)
      have "heap_except_up (iter_swap (parent_of i) i xs) (parent_of i)"
        using less.prems(1) i less.prems(2) c by (rule push_heap_step)
      moreover have "parent_of i < i" using i by (rule parent_of_less)
      moreover from this less.prems(2) have "parent_of i < length (iter_swap (parent_of i) i xs)" by simp
      ultimately have "is_heap lower_priority
          (push_heap_from lower_priority (parent_of i) (iter_swap (parent_of i) i xs))"
        using less.IH by blast
      with i True show ?thesis by (simp add: push_heap_from_swap)
    next
      case nc: False
      then have "below_parent xs i" by (simp add: lower_priority_def below_parent_def not_less)
      with less.prems have "is_heap lower_priority xs"
        unfolding is_heap_below_parent heap_except_up_def by metis
      with i nc show ?thesis by (simp add: push_heap_from_stop)
    qed
  qed
qed

lemma push_heap_from_mset:
  "i < length xs \<Longrightarrow> mset (push_heap_from cmp i xs) = mset xs"
proof (induction i arbitrary: xs rule: less_induct)
  case (less i)
  show ?case
  proof (cases "0 < i \<and> cmp (xs ! parent_of i) (xs ! i)")
    case True
    then have p: "parent_of i < i" by (simp add: parent_of_less)
    with less.prems have "parent_of i < length (iter_swap (parent_of i) i xs)" by simp
    with p less.IH have "mset (push_heap_from cmp (parent_of i) (iter_swap (parent_of i) i xs))
        = mset (iter_swap (parent_of i) i xs)" by blast
    with True p less.prems show ?thesis
      by (simp add: push_heap_from_swap mset_iter_swap)
  next
    case False
    then show ?thesis by (cases "i = 0") (auto simp: push_heap_from_0 push_heap_from_stop)
  qed
qed

lemma is_heap_pq_push:
  assumes "is_heap lower_priority q"
  shows "is_heap lower_priority (pq_push lower_priority x q)"
proof -
  have old: "below_parent (q @ [x]) j" if j: "0 < j" "j < length q" for j
  proof -
    have "parent_of j < length q" using j parent_of_less[of j] by simp
    with assms j show ?thesis
      by (simp add: is_heap_below_parent below_parent_def nth_append)
  qed
  have none: "\<not> (0 < j \<and> j < length (q @ [x]) \<and> parent_of j = length q)" for j
    using parent_of_less[of j] by auto
  have "heap_except_up (q @ [x]) (length q)"
    unfolding heap_except_up_def using old none
    by (metis length_append_singleton less_Suc_eq)
  then show ?thesis
    unfolding pq_push_def by (rule push_heap_from_is_heap) simp
qed

lemma mset_pq_push: "mset (pq_push cmp x q) = add_mset x (mset q)"
  by (simp add: pq_push_def push_heap_from_mset)

lemma largest_child_cases:
  "largest_child cmp i xs = i \<or>
   (largest_child cmp i xs = 2 * i + 1 \<and> 2 * i + 1 < length xs) \<or>
   (largest_child cmp i xs = 2 * i + 2 \<and> 2 * i + 2 < length xs)"
  unfolding largest_child_def Let_def by (simp only: split: if_splits) blast

lemma largest_child_above:
  "priority (xs ! i) \<le> priority (xs ! largest_child lower_priority i xs) \<and>
   (2 * i + 1 < length xs \<longrightarrow>
      priority (xs ! (2 * i + 1)) \<le> priority (xs ! largest_child lower_priority i xs)) \<and>
   (2 * i + 2 < length xs \<longrightarrow>
      priority (xs ! (2 * i + 2)) \<le> priority (xs ! largest_child lower_priority i xs))"
proof -
  define l where "l = 2 * i + 1"
  define r where "r = 2 * i + 2"
  define m where "m = (if l < length xs \<and> lower_priority (xs ! i) (xs ! l) then l else i)"
  define c where "c = (if r < length xs \<and> lower_priority (xs ! m) (xs ! r) then r else m)"
  have lc: "largest_child lower_priority i xs = c"
    by (simp only: largest_child_def Let_def c_def m_def l_def r_def)
  have mi: "priority (xs ! i) \<le> priority (xs ! m)"
    by (simp add: m_def lower_priority_def less_imp_le)
  have ml: "priority (xs ! l) \<le> priority (xs ! m)" if "l < length xs"
    using that by (simp add: m_def lower_priority_def not_less)
  have cm: "priority (xs ! m) \<le> priority (xs ! c)"
    by (simp add: c_def lower_priority_def less_imp_le)
  have cr: "priority (xs ! r) \<le> priority (xs ! c)" if "r < length xs"
    using that by (simp add: c_def lower_priority_def not_less)
  have "priority (xs ! i) \<le> priority (xs ! c)" using mi cm by (rule order_trans)
  moreover have "l < length xs \<longrightarrow> priority (xs ! l) \<le> priority (xs ! c)"
    using ml cm by (blast intro: order_trans)
  moreover have "r < length xs \<longrightarrow> priority (xs ! r) \<le> priority (xs ! c)"
    using cr by blast
  ultimately show ?thesis
    unfolding lc l_def r_def by blast
qed

lemma largest_child_child:
  "0 < j \<Longrightarrow> j < length xs \<Longrightarrow> parent_of j = i \<Longrightarrow>
     priority (xs ! j) \<le> priority (xs ! largest_child lower_priority i xs)"
  using largest_child_above[of xs i] by (auto simp: parent_of_child)

lemma adjust_heap_done:
  assumes h: "heap_except_down xs i" and c: "largest_child lower_priority i xs = i"
  shows "is_heap lower_priority xs"
  unfolding is_heap_below_parent
proof (intro allI impI)
  fix j assume j: "0 < j \<and> j < length xs"
  show "below_parent xs j"
  proof (cases "parent_of j = i")
    case True
    with largest_child_child[of j xs i] j c show ?thesis by (simp add: below_parent_def)
  next
    case False
    with h j show ?thesis by (simp add: heap_except_down_def)
  qed
qed

lemma adjust_heap_step:
  assumes h: "heap_except_down xs i" and c: "largest_child lower_priority i xs = c" "c \<noteq> i"
  shows "heap_except_down (iter_swap i c xs) c"
proof -
  define ys where "ys = iter_swap i c xs"
  have cc: "c < length xs" "c = 2 * i + 1 \<or> c = 2 * i + 2"
    using largest_child_cases[of lower_priority i xs] c by auto
  then have ic: "i < c" "i < length xs" "0 < c" by auto
  have pc: "parent_of c = i" using cc(2) ic(3) by (simp add: parent_of_child)
  have yi: "ys ! i = xs ! c" and yc: "ys ! c = xs ! i"
    using cc ic by (simp_all add: ys_def iter_swap_fst iter_swap_snd)
  have yk: "ys ! k = xs ! k" if "k \<noteq> i" "k \<noteq> c" for k
    using that by (simp add: ys_def iter_swap_other)
  have top: "priority (xs ! i) \<le> priority (xs ! c)"
    using largest_child_above[of xs i] c by simp
  have sib: "priority (xs ! j) \<le> priority (xs ! c)"
    if "0 < j" "j < length xs" "parent_of j = i" for j
    using largest_child_child[OF that] c by simp
  have bp: "priority (xs ! j) \<le> priority (xs ! parent_of j)"
    if "0 < j" "j < length xs" "parent_of j \<noteq> i" for j
    using h that by (simp add: heap_except_down_def below_parent_def)
  have gp: "priority (xs ! j) \<le> priority (xs ! parent_of i)"
    if "0 < i" "0 < j" "j < length xs" "parent_of j = i" for j
    using h that by (simp add: heap_except_down_def)
  have one: "priority (ys ! j) \<le> priority (ys ! parent_of j)"
    if j: "0 < j" "j < length xs" "parent_of j \<noteq> c" for j
  proof -
    define q where "q = parent_of j"
    have q: "q < j" "q \<noteq> c" using j parent_of_less[of j] by (simp_all add: q_def)
    consider "j = c" | "j = i" | "j \<noteq> c" "j \<noteq> i" "q = i" | "j \<noteq> c" "j \<noteq> i" "q \<noteq> i" by blast
    then have "priority (ys ! j) \<le> priority (ys ! q)"
    proof cases
      case 1
      then have "q = i" using pc by (simp add: q_def)
      with 1 top yi yc show ?thesis by simp
    next
      case 2
      then have i0: "0 < i" using j by simp
      have "q < i" using q 2 by simp
      then have "ys ! q = xs ! q" using yk[of q] ic by simp
      moreover have "priority (xs ! c) \<le> priority (xs ! parent_of i)"
        using gp[OF i0 ic(3) cc(1) pc] .
      ultimately show ?thesis using 2 yi by (simp add: q_def)
    next
      case 3
      then have "parent_of j = i" by (simp add: q_def)
      from sib[OF j(1) j(2) this] 3 yk[of j] yi show ?thesis by simp
    next
      case 4
      then have "parent_of j \<noteq> i" by (simp add: q_def)
      from bp[OF j(1) j(2) this] 4 q yk[of j] yk[of q] show ?thesis by (simp add: q_def)
    qed
    then show ?thesis by (simp add: q_def)
  qed
  have two: "priority (ys ! j) \<le> priority (ys ! parent_of c)"
    if j: "0 < j" "j < length xs" "parent_of j = c" for j
  proof -
    have "c < j" using j parent_of_less[of j] by auto
    with ic have "j \<noteq> i" "j \<noteq> c" by auto
    then have "ys ! j = xs ! j" by (rule yk)
    moreover have "priority (xs ! j) \<le> priority (xs ! c)"
      using bp[OF j(1) j(2)] j(3) c(2) by simp
    ultimately show ?thesis using pc yi by simp
  qed
  have "heap_except_down ys c"
    unfolding heap_except_down_def below_parent_def using one two by (simp add: ys_def)
  then show ?thesis by (simp add: ys_def)
qed

lemma adjust_heap_is_heap:
  "heap_except_down xs i \<Longrightarrow> is_heap lower_priority (adjust_heap lower_priority i xs)"
proof (induction "length xs - i" arbitrary: i xs rule: less_induct)
  case less
  define c where "c = largest_child lower_priority i xs"
  show ?case
  proof (cases "c = i")
    case True
    with less.prems have "is_heap lower_priority xs" by (simp add: adjust_heap_done c_def)
    with True show ?thesis by (subst adjust_heap_unfold) (simp add: c_def)
  next
    case False
    have cc: "c < length xs" "i < c"
      using largest_child_cases[of lower_priority i xs] False by (auto simp: c_def)
    have "heap_except_down (iter_swap i c xs) c"
      using less.prems c_def[symmetric] False by (rule adjust_heap_step)
    moreover have "length (iter_swap i c xs) - c < length xs - i" using cc by simp
    ultimately have "is_heap lower_priority (adjust_heap lower_priority c (iter_swap i c xs))"
      using less.hyps by blast
    with False show ?thesis by (subst adjust_heap_unfold) (simp add: c_def)
  qed
qed

lemma adjust_heap_mset: "mset (adjust_heap cmp i xs) = mset xs"
proof (induction "length xs - i" arbitrary: i xs rule: less_induct)
  case less
  define c where "c = largest_child cmp i xs"
  show ?case
  proof (cases "c = i")
    case True
    then show ?thesis by (subst adjust_heap_unfold) (simp add: c_def)
  next
    case False
    have cc: "c < length xs" "i < c"
      using largest_child_cases[of cmp i xs] False by (auto simp: c_def)
    then have "length (iter_swap i c xs) - c < length xs - i" by simp
    then have "mset (adjust_heap cmp c (iter_swap i c xs)) = mset (iter_swap i c xs)"
      using less.hyps by blast
    also have "\<dots> = mset xs" using cc by (simp add: mset_iter_swap)
    finally show ?thesis using False by (subst adjust_heap_unfold) (simp add: c_def)
  qed
qed

lemma pop_heap_front:
  assumes "q \<noteq> []"
  shows "length (butlast (iter_swap 0 (length q - 1) q)) = length q - 1"
    and "k < length q - 1 \<Longrightarrow> 0 < k \<Longrightarrow> butlast (iter_swap 0 (length q - 1) q) ! k = q ! k"
  using assms by (simp_all add: nth_butlast iter_swap_other)

lemma is_heap_pq_pop:
  assumes "is_heap lower_priority q" and "pq_pop lower_priority q = Some q'"
  shows "is_heap lower_priority q'"
proof -
  from assms(2) have ne: "q \<noteq> []" by (auto simp: pq_pop_def split: if_splits)
  define xs where "xs = butlast (iter_swap 0 (length q - 1) q)"
  have len: "length xs = length q - 1" using ne by (simp add: xs_def)
  have same: "xs ! k = q ! k" if "k < length q - 1" "0 < k" for k
    using pop_heap_front(2)[OF ne that] by (simp add: xs_def)
  have "below_parent xs j" if j: "0 < j" "j < length xs" "parent_of j \<noteq> 0" for j
  proof -
    have "parent_of j < j" using j(1) by (rule parent_of_less)
    with j len have "xs ! j = q ! j" "xs ! parent_of j = q ! parent_of j"
      by (simp_all add: same)
    moreover have "below_parent q j" using assms(1) j len by (simp add: is_heap_below_parent)
    ultimately show ?thesis by (simp add: below_parent_def)
  qed
  then have "heap_except_down xs 0" by (simp add: heap_except_down_def)
  then have "is_heap lower_priority (adjust_heap lower_priority 0 xs)" by (rule adjust_heap_is_heap)
  with assms(2) ne show ?thesis by (simp add: pq_pop_def xs_def)
qed

lemma is_heap_top:
  assumes "is_heap lower_priority xs"
  shows "i < length xs \<Longrightarrow> priority (xs ! i) \<le> priority (xs ! 0)"
proof (induction i rule: less_induct)
  case (less i)
  show ?case
  proof (cases "i = 0")
    case True
    then show ?thesis by simp
  next
    case False
    then have p: "parent_of i < i" by (simp add: parent_of_less)
    with less.prems have "priority (xs ! parent_of i) \<le> priority (xs ! 0)"
      using less.IH by simp
    moreover have "priority (xs ! i) \<le> priority (xs ! parent_of i)"
      using assms False less.prems by (simp add: is_heap_below_parent below_parent_def)
    ultimately show ?thesis by (rule order_trans[rotated])
  qed
qed

lemma is_heap_apply_range_ops:
  "is_heap lower_priority q \<Longrightarrow> apply_range_ops ops q = Some q' \<Longrightarrow> is_heap lower_priority q'"
proof (induction ops arbitrary: q)
  case Nil
  then show ?case by simp
next
  case (Cons op ops)
  show ?case
  proof (cases op)
    case (Push r)
    with Cons.prems(2) have "apply_range_ops ops (pq_push lower_priority r q) = Some q'" by simp
    with Cons.IH is_heap_pq_push[OF Cons.prems(1)] show ?thesis by blast
  next
    case Pop
    with Cons.prems(2) obtain q1 where q1: "pq_pop lower_priority q = Some q1"
      "apply_range_ops ops q1 = Some q'" by (auto split: option.splits)
    from Cons.prems(1) q1(1) have "is_heap lower_priority q1" by (rule is_heap_pq_pop)
    with Cons.IH q1(2) show ?thesis by blast
  qed
qed

lemma is_heap_Nil: "is_heap cmp []"
  by (simp add: is_heap_def)

lemma mset_pq_pop:
  assumes "pq_pop cmp q = Some q'"
  shows "mset q' = mset q - {#hd q#}"
proof -
  from assms have ne: "q \<noteq> []" by (auto simp: pq_pop_def split: if_splits)
  define ys where "ys = iter_swap 0 (length q - 1) q"
  have l: "length q - 1 < length q" "0 < length q" using ne by simp_all
  have ys: "ys \<noteq> []" "length ys = length q" using ne by (auto simp: ys_def iter_swap_def)
  have "ys ! (length q - 1) = q ! 0"
    using iter_swap_snd[of 0 q "length q - 1"] l by (simp add: ys_def)
  then have "last ys = hd q"
    using ys ne by (simp add: last_conv_nth hd_conv_nth)
  moreover have "mset ys = add_mset (last ys) (mset (butlast ys))"
    using ys(1) by (cases ys rule: rev_cases) simp_all
  ultimately have "mset (butlast ys) = mset ys - {#hd q#}" by simp
  also have "mset ys = mset q" using l by (simp add: ys_def mset_iter_swap)
  finally have "mset (adjust_heap cmp 0 (butlast ys)) = mset q - {#hd q#}"
    by (simp add: adjust_heap_mset)
  moreover have "q' = adjust_heap cmp 0 (butlast ys)"
    using assms ne by (simp add: pq_pop_def ys_def)
  ultimately show ?thesis by simp
qed

lemma apply_range_ops_top_highest:
  assumes "apply_range_ops ops [] = Some q" and "pq_top q = Some t"
  shows "\<forall>r \<in> set q. priority r \<le> priority t"
proof
  fix r assume "r \<in> set q"
  then obtain i where i: "i < length q" "q ! i = r" by (auto simp: in_set_conv_nth)
  from assms(2) have t: "q ! 0 = t" by (cases q) (simp_all add: pq_top_def)
  have "is_heap lower_priority q" using is_heap_Nil assms(1) by (rule is_heap_apply_range_ops)
  from is_heap_top[OF this i(1)] i t show "priority r \<le> priority t" by simp
qed

section \<open>Evaluating the concrete runs\<close>

lemmas scen = owned_T1_def offered_T1_def aborted_while_waiting_def completed_T1_def ready_T1_def
  owned_T1_T2_def stale_T1_ready_T2_def aborted_before_claim_def
  T1_def T2_def range_a_def range_b_def range_c_def
  SyncQueue_new_def find_table_job_def borrow_work_def finished_def have_work_to_share_def
  push_range_to_check_def TableJob_new_def pq_push_def KeyRangeToCheck_new_def
  start_sharing_work_def start_sharing_work_in_def deref_have_work_to_share_def
  TableJob_have_work_to_share_def abort_def AbortableBarrier_abort_def completed_table_def
  three_ready_T1_def reused_after_T1_def UNKNOWN_ROW_COUNT_def push_heap_from_0 push_heap_from_swap push_heap_from_stop
  parent_of_def lower_priority_def iter_swap_def pq_top_def

section \<open>The ordered sets\<close>

lemma set_set_insert [simp]: "set (set_insert p ps) = insert p (set ps)"
  by (induction ps) auto

lemma sorted_set_insert: "sorted_wrt (<) ps \<Longrightarrow> sorted_wrt (<) (set_insert p ps)"
  by (induction ps) auto

lemma set_set_erase_subset: "set (set_erase p ps) \<subseteq> set ps"
  by (induction ps) auto

lemma sorted_set_erase: "sorted_wrt (<) ps \<Longrightarrow> sorted_wrt (<) (set_erase p ps)"
  using set_set_erase_subset by (induction ps) fastforce+

lemma set_set_erase: "distinct ps \<Longrightarrow> set (set_erase p ps) = set ps - {p}"
  by (induction ps) auto

lemma set_erase_other: "q \<noteq> p \<Longrightarrow> (q \<in> set (set_erase p ps)) = (q \<in> set ps)"
  by (induction ps) auto

lemma strict_sorted_distinct: "sorted_wrt (<) (ps :: nat list) \<Longrightarrow> distinct ps"
  by (induction ps) auto

section \<open>The scan of the jobs with work to share\<close>

lemma scan_decompose:
  "scan_tables_with_work_to_share h ps = (Some p, rest) \<Longrightarrow>
     \<exists>skipped rest'. ps = skipped @ p # rest' \<and> rest = p # rest' \<and>
        (\<forall>q \<in> set skipped. \<not> deref_have_work_to_share h q) \<and> deref_have_work_to_share h p"
proof (induction ps)
  case Nil
  then show ?case by simp
next
  case (Cons a ps)
  show ?case
  proof (cases "deref_have_work_to_share h a")
    case True
    with Cons.prems have "p = a" "rest = a # ps" by auto
    with True show ?thesis by (intro exI[of _ "[]"] exI[of _ ps]) simp
  next
    case False
    with Cons.prems have "scan_tables_with_work_to_share h ps = (Some p, rest)" by simp
    from Cons.IH[OF this] obtain skipped rest' where
      "ps = skipped @ p # rest'" "rest = p # rest'"
      "\<forall>q \<in> set skipped. \<not> deref_have_work_to_share h q" "deref_have_work_to_share h p"
      by blast
    with False show ?thesis
      by (intro exI[of _ "a # skipped"] exI[of _ rest']) simp
  qed
qed

lemma scan_none:
  "scan_tables_with_work_to_share h ps = (None, rest) \<Longrightarrow>
     rest = [] \<and> (\<forall>q \<in> set ps. \<not> deref_have_work_to_share h q)"
  by (induction ps) (auto split: if_splits)

lemma scan_suffix: "\<exists>skipped. ps = skipped @ snd (scan_tables_with_work_to_share h ps)"
proof (induction ps)
  case Nil
  show ?case by simp
next
  case (Cons a ps)
  then obtain skipped where s: "ps = skipped @ snd (scan_tables_with_work_to_share h ps)" by blast
  show ?case
  proof (cases "deref_have_work_to_share h a")
    case True
    then have "a # ps = [] @ snd (scan_tables_with_work_to_share h (a # ps))" by simp
    then show ?thesis by blast
  next
    case False
    with s have "a # ps = (a # skipped) @ snd (scan_tables_with_work_to_share h (a # ps))" by simp
    then show ?thesis by blast
  qed
qed

lemma scan_sorted:
  "sorted_wrt (<) ps \<Longrightarrow> sorted_wrt (<) (snd (scan_tables_with_work_to_share h ps))"
  using scan_suffix[of ps h] by (metis sorted_wrt_append)

lemma scan_subset: "set (snd (scan_tables_with_work_to_share h ps)) \<subseteq> set ps"
  using scan_suffix[of ps h] by (metis set_append Un_upper2)

lemma borrow_work_frame [simp]:
  "tables_to_process (snd (borrow_work s)) = tables_to_process s"
  "tables_being_processed (snd (borrow_work s)) = tables_being_processed s"
  "heap (snd (borrow_work s)) = heap s"
  "aborted (snd (borrow_work s)) = aborted s"
  "sharing_work (snd (borrow_work s)) = sharing_work s"
  by (simp_all add: borrow_work_def split: prod.splits option.splits)

lemma borrow_work_shareable:
  "tables_with_work_to_share (snd (borrow_work s)) =
     (if finished s then tables_with_work_to_share s
      else snd (scan_tables_with_work_to_share (heap s) (tables_with_work_to_share s)))"
  by (simp add: borrow_work_def split: prod.splits option.splits)

lemma borrow_work_never_throws: "fst (borrow_work s) \<noteq> Throw e"
  by (simp add: borrow_work_def split: prod.splits option.splits)

text \<open>C2, as amended: in a pass of \<open>borrow_work\<close> over a queue that is not finished, the
  jobs visited before the one returned had no ready range and are removed from the set
  of jobs with work to share; the job returned is the first in the set's order whose
  \<open>ranges_to_check\<close> is not empty, and it stays in the set. When no job has a ready
  range the set is emptied and the worker waits.\<close>

theorem borrow_work_scan:
  assumes "\<not> finished s" and "distinct (tables_with_work_to_share s)"
  shows "(\<exists>skipped p rest.
            tables_with_work_to_share s = skipped @ p # rest \<and>
            (\<forall>q \<in> set skipped. \<not> deref_have_work_to_share (heap s) q) \<and>
            deref_have_work_to_share (heap s) p \<and>
            borrow_work s = (Return (Some p), s\<lparr>tables_with_work_to_share := p # rest\<rparr>) \<and>
            p \<in> set (tables_with_work_to_share (snd (borrow_work s))) \<and>
            (\<forall>q \<in> set skipped. q \<notin> set (tables_with_work_to_share (snd (borrow_work s)))))
       \<or> ((\<forall>q \<in> set (tables_with_work_to_share s). \<not> deref_have_work_to_share (heap s) q) \<and>
           borrow_work s = (Wait, s\<lparr>tables_with_work_to_share := []\<rparr>))"
proof (cases "scan_tables_with_work_to_share (heap s) (tables_with_work_to_share s)")
  case (Pair found rest)
  show ?thesis
  proof (cases found)
    case None
    with Pair scan_none[of "heap s" "tables_with_work_to_share s" rest] assms(1)
    show ?thesis by (simp add: borrow_work_def)
  next
    case (Some p)
    with Pair scan_decompose[of "heap s" "tables_with_work_to_share s" p rest]
    obtain skipped rest' where d:
      "tables_with_work_to_share s = skipped @ p # rest'" "rest = p # rest'"
      "\<forall>q \<in> set skipped. \<not> deref_have_work_to_share (heap s) q"
      "deref_have_work_to_share (heap s) p"
      by blast
    have b: "borrow_work s = (Return (Some p), s\<lparr>tables_with_work_to_share := p # rest'\<rparr>)"
      using Pair Some d(2) assms(1) by (simp add: borrow_work_def)
    have "\<forall>q \<in> set skipped. q \<notin> set (p # rest')"
      using assms(2) d(1) by auto
    with d b show ?thesis by auto
  qed
qed

text \<open>Job 1 was offered and has no range, job 2 has one: the pass skips and removes job 1,
  returns job 2 and keeps it in the set.\<close>

theorem borrow_work_scan_witness:
  "\<not> finished stale_T1_ready_T2 \<and> distinct (tables_with_work_to_share stale_T1_ready_T2) \<and>
   tables_with_work_to_share stale_T1_ready_T2 = [1, 2] \<and>
   borrow_work stale_T1_ready_T2 = (Return (Some 2), stale_T1_ready_T2\<lparr>tables_with_work_to_share := [2]\<rparr>)"
  using borrow_work_scan[of stale_T1_ready_T2]
  by (simp add: scen)

text \<open>C2 as stated fails: the only candidate is visited and returned, and it is still in
  the set after the pass, because \<open>erase\<close> is the increment of the \<open>for\<close> loop and the
  \<open>return\<close> leaves the loop before it.\<close>

theorem borrow_work_keeps_returned_job:
  "tables_with_work_to_share offered_T1 = [1] \<and>
   fst (borrow_work offered_T1) = Return (Some 1) \<and>
   1 \<in> set (tables_with_work_to_share (snd (borrow_work offered_T1)))"
  by (simp add: scen)

section \<open>Entering sharing mode\<close>

lemma ssw_in_pending [simp]: "tables_to_process (start_sharing_work_in p s) = tables_to_process s"
  and ssw_in_claimed [simp]: "tables_being_processed (start_sharing_work_in p s) = tables_being_processed s"
  and ssw_in_aborted [simp]: "aborted (start_sharing_work_in p s) = aborted s"
  and ssw_in_sharing [simp]: "sharing_work (start_sharing_work_in p s) = sharing_work s"
  by (simp_all add: start_sharing_work_in_def Let_def split: option.splits)

lemma fold_ssw_in_frame [simp]:
  "tables_to_process (fold start_sharing_work_in ps s) = tables_to_process s"
  "tables_being_processed (fold start_sharing_work_in ps s) = tables_being_processed s"
  "aborted (fold start_sharing_work_in ps s) = aborted s"
  "sharing_work (fold start_sharing_work_in ps s) = sharing_work s"
  by (induction ps arbitrary: s) simp_all

lemma ssw_frame [simp]:
  "tables_to_process (start_sharing_work s) = tables_to_process s"
  "tables_being_processed (start_sharing_work s) = tables_being_processed s"
  "aborted (start_sharing_work s) = aborted s"
  "sharing_work (start_sharing_work s)"
  by (simp_all add: start_sharing_work_def Let_def)

lemma publish_twice [simp]: "map_option publish (map_option publish x) = map_option publish x"
  by (cases x) (simp_all add: publish_def)

lemma ssw_in_heap:
  "heap (start_sharing_work_in p s) q = (if q = p then map_option publish (heap s q) else heap s q)"
  by (simp add: start_sharing_work_in_def Let_def publish_def split: option.splits)

lemma fold_ssw_in_heap:
  "heap (fold start_sharing_work_in ps s) q =
     (if q \<in> set ps then map_option publish (heap s q) else heap s q)"
  by (induction ps arbitrary: s) (simp_all add: ssw_in_heap)

lemma has_work_publish [simp]:
  "deref_have_work_to_share (\<lambda>q. if P q then map_option publish (h q) else h q) p
     = deref_have_work_to_share h p"
  by (simp add: deref_have_work_to_share_def TableJob_have_work_to_share_def publish_def
           split: option.splits)

lemma ssw_in_has_work [simp]:
  "deref_have_work_to_share (heap (start_sharing_work_in p s)) q = deref_have_work_to_share (heap s) q"
  by (simp add: deref_have_work_to_share_def TableJob_have_work_to_share_def ssw_in_heap publish_def
           split: option.splits)

lemma ssw_in_shareable:
  "set (tables_with_work_to_share (start_sharing_work_in p s)) =
     set (tables_with_work_to_share s) \<union> {q. q = p \<and> deref_have_work_to_share (heap s) q}"
  by (auto simp: start_sharing_work_in_def Let_def deref_have_work_to_share_def split: option.splits)

lemma fold_ssw_in_has_work [simp]:
  "deref_have_work_to_share (heap (fold start_sharing_work_in ps s)) q = deref_have_work_to_share (heap s) q"
  by (induction ps arbitrary: s) simp_all

lemma fold_ssw_in_shareable:
  "set (tables_with_work_to_share (fold start_sharing_work_in ps s)) =
     set (tables_with_work_to_share s) \<union> {q \<in> set ps. deref_have_work_to_share (heap s) q}"
  by (induction ps arbitrary: s) (auto simp: ssw_in_shareable)

lemma ssw_heap:
  "heap (start_sharing_work s) q =
     (if q \<in> set (tables_to_process s) \<union> set (tables_being_processed s)
      then map_option publish (heap s q) else heap s q)"
  by (simp add: start_sharing_work_def Let_def fold_ssw_in_heap)

lemma ssw_shareable:
  "set (tables_with_work_to_share (start_sharing_work s)) =
     set (tables_with_work_to_share s) \<union>
     {q \<in> set (tables_to_process s) \<union> set (tables_being_processed s).
        deref_have_work_to_share (heap s) q}"
  by (auto simp: start_sharing_work_def Let_def fold_ssw_in_shareable)

lemma ssw_heap_None [simp]: "(heap (start_sharing_work s) p = None) = (heap s p = None)"
  by (simp add: ssw_heap)

lemma ssw_in_sorted:
  "sorted_wrt (<) (tables_with_work_to_share s) \<Longrightarrow>
     sorted_wrt (<) (tables_with_work_to_share (start_sharing_work_in p s))"
  by (simp add: start_sharing_work_in_def Let_def sorted_set_insert split: option.splits)

lemma fold_ssw_in_sorted:
  "sorted_wrt (<) (tables_with_work_to_share s) \<Longrightarrow>
     sorted_wrt (<) (tables_with_work_to_share (fold start_sharing_work_in ps s))"
  by (induction ps arbitrary: s) (simp_all add: ssw_in_sorted)

lemma ssw_sorted:
  "sorted_wrt (<) (tables_with_work_to_share s) \<Longrightarrow>
     sorted_wrt (<) (tables_with_work_to_share (start_sharing_work s))"
  by (simp add: start_sharing_work_def Let_def fold_ssw_in_sorted)

lemma scan_finds:
  "p \<in> set ps \<Longrightarrow> deref_have_work_to_share h p \<Longrightarrow>
     \<exists>q rest. scan_tables_with_work_to_share h ps = (Some q, rest) \<and>
        deref_have_work_to_share h q \<and> p \<in> set rest"
  by (induction ps) auto

lemma ssw_has_work [simp]:
  "deref_have_work_to_share (heap (start_sharing_work s)) q = deref_have_work_to_share (heap s) q"
  by (simp add: start_sharing_work_def Let_def)

lemma find_table_job_after_sharing:
  assumes "\<not> aborted s" "tables_to_process s = []" "\<not> sharing_work s"
    and "p \<in> set (tables_being_processed s)" and "deref_have_work_to_share (heap s) p"
  shows "\<exists>q. fst (find_table_job s) = Return (Some q) \<and> deref_have_work_to_share (heap s) q \<and>
             p \<in> set (tables_with_work_to_share (snd (find_table_job s)))"
proof -
  define s1 where "s1 = start_sharing_work s"
  have f: "find_table_job s = borrow_work s1" using assms(1-3) by (simp add: find_table_job_def s1_def)
  have nf: "\<not> finished s1" using assms(4) by (auto simp: finished_def s1_def)
  have "p \<in> set (tables_with_work_to_share s1)"
    using assms(4,5) by (simp add: s1_def ssw_shareable)
  moreover have "deref_have_work_to_share (heap s1) p" using assms(5) by (simp add: s1_def)
  ultimately obtain q rest where
    q: "scan_tables_with_work_to_share (heap s1) (tables_with_work_to_share s1) = (Some q, rest)"
       "deref_have_work_to_share (heap s1) q" "p \<in> set rest"
    using scan_finds by blast
  from q(1) nf have "borrow_work s1 = (Return (Some q), s1\<lparr>tables_with_work_to_share := rest\<rparr>)"
    by (simp add: borrow_work_def)
  with f q(2,3) show ?thesis by (simp add: s1_def)
qed

lemma sharing_work_find_table_job: "sharing_work s \<Longrightarrow> sharing_work (snd (find_table_job s))"
  by (simp add: find_table_job_def split: list.splits)

lemma find_table_job_shares_once:
  "sharing_work s \<Longrightarrow> heap (snd (find_table_job s)) = heap s"
  by (simp add: find_table_job_def split: list.splits)

text \<open>C5: \<open>start_sharing_work\<close> sets the sharing flag, sets
  \<open>notify_when_work_could_be_shared\<close> in every job of the pending queue and of the
  claimed set, and puts every such job whose \<open>ranges_to_check\<close> is not empty at that
  moment into the set of jobs with work to share, with no call of \<open>have_work_to_share\<close>:
  the \<open>find_table_job\<close> that starts the sharing already returns a job with a ready
  range to its caller, and leaves that job in the set for the next borrower.\<close>
theorem start_sharing_work_publishes:
  assumes "p \<in> set (tables_to_process s) \<union> set (tables_being_processed s)"
    and "heap s p = Some table_job"
  shows "sharing_work (start_sharing_work s) \<and>
         heap (start_sharing_work s) p = Some (table_job\<lparr>notify_when_work_could_be_shared := True\<rparr>) \<and>
         (ranges_to_check table_job \<noteq> [] \<longrightarrow>
            p \<in> set (tables_with_work_to_share (start_sharing_work s)) \<and>
            (\<not> aborted s \<and> tables_to_process s = [] \<and> \<not> sharing_work s \<longrightarrow>
               (\<exists>q. fst (find_table_job s) = Return (Some q) \<and> deref_have_work_to_share (heap s) q) \<and>
               p \<in> set (tables_with_work_to_share (snd (find_table_job s)))))"
proof -
  have w: "deref_have_work_to_share (heap s) p" if "ranges_to_check table_job \<noteq> []"
    using that assms(2) by (simp add: deref_have_work_to_share_def TableJob_have_work_to_share_def)
  have "(\<exists>q. fst (find_table_job s) = Return (Some q) \<and> deref_have_work_to_share (heap s) q) \<and>
        p \<in> set (tables_with_work_to_share (snd (find_table_job s)))"
    if "ranges_to_check table_job \<noteq> []" "\<not> aborted s" "tables_to_process s = []" "\<not> sharing_work s"
    using find_table_job_after_sharing[OF that(2,3,4) _ w[OF that(1)]] assms(1) that(3) by auto
  moreover have "p \<in> set (tables_with_work_to_share (start_sharing_work s))"
    if "ranges_to_check table_job \<noteq> []"
    using assms(1) w[OF that] by (simp add: ssw_shareable)
  moreover have "heap (start_sharing_work s) p = Some (table_job\<lparr>notify_when_work_could_be_shared := True\<rparr>)"
    using assms by (simp add: ssw_heap publish_def)
  ultimately show ?thesis by simp
qed

text \<open>The owner of table 1 has a range ready before sharing starts; sharing mode finds
  it.\<close>

theorem start_sharing_work_publishes_witness:
  "1 \<in> set (tables_to_process ready_T1) \<union> set (tables_being_processed ready_T1) \<and>
   heap ready_T1 1 = Some ((TableJob_new T1)\<lparr>ranges_to_check := [range_a]\<rparr>) \<and>
   \<not> aborted ready_T1 \<and> \<not> sharing_work ready_T1 \<and>
   tables_to_process ready_T1 = [] \<and> tables_with_work_to_share ready_T1 = [] \<and>
   sharing_work (start_sharing_work ready_T1) \<and>
   heap (start_sharing_work ready_T1) 1 =
     Some ((TableJob_new T1)\<lparr>ranges_to_check := [range_a], notify_when_work_could_be_shared := True\<rparr>) \<and>
   tables_with_work_to_share (start_sharing_work ready_T1) = [1] \<and>
   fst (find_table_job ready_T1) = Return (Some 1) \<and>
   tables_with_work_to_share (snd (find_table_job ready_T1)) = [1]"
  using start_sharing_work_publishes[of 1 ready_T1 "(TableJob_new T1)\<lparr>ranges_to_check := [range_a]\<rparr>"]
  by (simp add: scen)

section \<open>The end of the run\<close>

text \<open>C8: a pass of \<open>borrow_work\<close> returns the null job exactly when the pending queue and
  the claimed set are both empty, and so does a \<open>find_table_job\<close> that goes on to
  borrow (the run is not aborted and nothing is pending): while a job is claimed it does
  not return null.\<close>

theorem no_work_iff_finished:
  "(fst (borrow_work s) = Return None) = (tables_to_process s = [] \<and> tables_being_processed s = [])
   \<and> (\<not> aborted s \<and> tables_to_process s = [] \<longrightarrow>
        (fst (find_table_job s) = Return None) = (tables_being_processed s = []))"
proof -
  have b: "(fst (borrow_work s') = Return None) = finished s'" for s'
    by (auto simp: borrow_work_def split: prod.splits option.splits)
  have "finished (start_sharing_work s) = finished s"
    by (simp add: finished_def)
  with b show ?thesis
    by (simp add: find_table_job_def finished_def)
qed

text \<open>With table 1 claimed, a second worker's call waits; after the table is completed
  the call returns null.\<close>

theorem no_work_iff_finished_witness:
  "\<not> aborted owned_T1 \<and> tables_to_process owned_T1 = [] \<and> tables_being_processed owned_T1 = [1] \<and>
   fst (find_table_job owned_T1) = Wait \<and>
   \<not> aborted completed_T1 \<and> tables_to_process completed_T1 = [] \<and> tables_being_processed completed_T1 = [] \<and>
   fst (find_table_job completed_T1) = Return None"
  using no_work_iff_finished[of owned_T1] no_work_iff_finished[of completed_T1]
  by (simp add: scen)

section \<open>Enqueueing and claiming whole tables\<close>

lemma enqueue_pending:
  "tables_to_process (enqueue_tables_to_process tables s) = tables_to_process s @ map fst tables"
  by (induction tables arbitrary: s) auto

lemma enqueue_frame [simp]:
  "tables_being_processed (enqueue_tables_to_process tables s) = tables_being_processed s"
  "tables_with_work_to_share (enqueue_tables_to_process tables s) = tables_with_work_to_share s"
  "aborted (enqueue_tables_to_process tables s) = aborted s"
  "sharing_work (enqueue_tables_to_process tables s) = sharing_work s"
  by (induction tables arbitrary: s) auto

lemma enqueue_heap_other:
  "p \<notin> fst ` set tables \<Longrightarrow> heap (enqueue_tables_to_process tables s) p = heap s p"
  by (induction tables arbitrary: s) auto

lemma enqueue_heap_new:
  "distinct (map fst tables) \<Longrightarrow> (p, t) \<in> set tables \<Longrightarrow>
     heap (enqueue_tables_to_process tables s) p = Some (TableJob_new t)"
proof (induction tables arbitrary: s)
  case Nil
  then show ?case by simp
next
  case (Cons a tables)
  obtain p' t' where a: "a = (p', t')" by (cases a)
  show ?case
  proof (cases "(p, t) = a")
    case True
    with Cons.prems a have "p \<notin> fst ` set tables" by auto
    with True a show ?thesis by (simp add: enqueue_heap_other)
  next
    case False
    with Cons a show ?thesis by auto
  qed
qed

lemma enqueue_heap_None:
  "(heap (enqueue_tables_to_process tables s) p = None) = (heap s p = None \<and> p \<notin> fst ` set tables)"
  by (induction tables arbitrary: s) (force split: if_splits)+

lemma find_table_job_front:
  "\<not> aborted s \<Longrightarrow> tables_to_process s = p # ps \<Longrightarrow>
     find_table_job s = (Return (Some p),
        s\<lparr>tables_to_process := ps, tables_being_processed := set_insert p (tables_being_processed s)\<rparr>)"
  by (simp add: find_table_job_def)

lemma find_table_jobs_in_order:
  "\<not> aborted s \<Longrightarrow> tables_to_process s = ps \<Longrightarrow>
     find_table_jobs (length ps) s = map (\<lambda>p. Return (Some p)) ps"
  by (induction ps arbitrary: s) (simp_all add: find_table_job_front)

text \<open>C7, as amended: \<open>enqueue_tables_to_process\<close> appends one fresh job per table to the
  back of the pending queue, in the order of its input; every \<open>find_table_job\<close> made
  while the run is not aborted and the pending queue is not empty takes the job at the
  front, inserts it in the claimed set and returns it; so as many claims as there are
  pending jobs hand the tables out in the order they were enqueued.\<close>
theorem enqueue_and_claim_in_order:
  assumes "\<not> aborted s" and "distinct (map fst tables)"
  shows "tables_to_process (enqueue_tables_to_process tables s) = tables_to_process s @ map fst tables \<and>
         (\<forall>(p, t) \<in> set tables. heap (enqueue_tables_to_process tables s) p = Some (TableJob_new t)) \<and>
         (\<forall>p ps. tables_to_process s = p # ps \<longrightarrow>
            find_table_job s =
              (Return (Some p),
               s\<lparr>tables_to_process := ps,
                 tables_being_processed := set_insert p (tables_being_processed s)\<rparr>) \<and>
            set (set_insert p (tables_being_processed s)) = insert p (set (tables_being_processed s))) \<and>
         find_table_jobs (length (tables_to_process s) + length tables)
             (enqueue_tables_to_process tables s)
           = map (\<lambda>p. Return (Some p)) (tables_to_process s @ map fst tables)"
proof -
  have "find_table_jobs (length (tables_to_process (enqueue_tables_to_process tables s)))
            (enqueue_tables_to_process tables s)
          = map (\<lambda>p. Return (Some p)) (tables_to_process (enqueue_tables_to_process tables s))"
    using assms(1) by (intro find_table_jobs_in_order) simp_all
  then have "find_table_jobs (length (tables_to_process s) + length tables)
             (enqueue_tables_to_process tables s)
           = map (\<lambda>p. Return (Some p)) (tables_to_process s @ map fst tables)"
    by (simp add: enqueue_pending)
  moreover have "\<forall>(p, t) \<in> set tables. heap (enqueue_tables_to_process tables s) p = Some (TableJob_new t)"
    using assms(2) by (auto simp: enqueue_heap_new)
  ultimately show ?thesis
    using assms(1) by (simp add: enqueue_pending find_table_job_front)
qed

text \<open>Two tables enqueued on a new queue are claimed in their order.\<close>
theorem enqueue_and_claim_in_order_witness:
  "\<not> aborted (SyncQueue_new 2) \<and> distinct (map fst [(1 :: job_ptr, T1), (2, T2)]) \<and>
   tables_to_process (enqueue_tables_to_process [(1, T1), (2, T2)] (SyncQueue_new 2)) = [1, 2] \<and>
   heap (enqueue_tables_to_process [(1, T1), (2, T2)] (SyncQueue_new 2)) 2 = Some (TableJob_new T2) \<and>
   find_table_jobs (Suc (Suc 0)) (enqueue_tables_to_process [(1, T1), (2, T2)] (SyncQueue_new 2))
     = [Return (Some 1), Return (Some 2)]"
  using enqueue_and_claim_in_order[of "SyncQueue_new 2" "[(1, T1), (2, T2)]"]
  by (simp add: SyncQueue_new_def find_table_job_def)

text \<open>C7 as stated fails: a claim made while the pending queue holds table 1 but after
  the run was aborted throws, and the table stays in the pending queue, unclaimed.\<close>

theorem claim_after_abort_hands_out_nothing:
  "aborted aborted_before_claim \<and> tables_to_process aborted_before_claim = [1] \<and>
   fst (find_table_job aborted_before_claim) = Throw aborted_error \<and>
   tables_to_process (snd (find_table_job aborted_before_claim)) = [1] \<and>
   tables_being_processed (snd (find_table_job aborted_before_claim)) = []"
  by (simp add: scen)

section \<open>Invariants of the queue\<close>

text \<open>Sharing mode is entered once: no call leaves it.\<close>
lemma sharing_work_perform: "sharing_work s \<Longrightarrow> sharing_work (perform e s)"
  by (cases e)
     (simp_all add: sharing_work_find_table_job completed_table_def Let_def have_work_to_share_def
        abort_def AbortableBarrier_abort_def push_range_to_check_def pop_range_to_check_def
        split: option.splits)

lemma queue_inv_borrow_work: "queue_inv s \<Longrightarrow> queue_inv (snd (borrow_work s))"
  by (simp add: queue_inv_def borrow_work_shareable scan_sorted)

lemma queue_inv_ssw: "queue_inv s \<Longrightarrow> queue_inv (start_sharing_work s)"
  by (simp add: queue_inv_def ssw_sorted)

lemma queue_inv_find_table_job: "queue_inv s \<Longrightarrow> queue_inv (snd (find_table_job s))"
proof (cases "aborted s \<or> tables_to_process s = []")
  case True
  assume "queue_inv s"
  with True show ?thesis
    by (auto simp: find_table_job_def queue_inv_borrow_work queue_inv_ssw)
next
  case False
  assume i: "queue_inv s"
  from False obtain p ps where p: "tables_to_process s = p # ps" by (cases "tables_to_process s") auto
  with False i show ?thesis
    by (auto simp: find_table_job_front queue_inv_def sorted_set_insert)
qed

lemma queue_inv_completed_table: "queue_inv s \<Longrightarrow> queue_inv (snd (completed_table p s))"
  using set_set_erase_subset[of p "tables_being_processed s"]
  by (auto simp: queue_inv_def completed_table_def Let_def sorted_set_erase)

lemma queue_inv_have_work_to_share: "queue_inv s \<Longrightarrow> queue_inv (snd (have_work_to_share p s))"
  by (simp add: queue_inv_def have_work_to_share_def sorted_set_insert)

lemma queue_inv_abort: "queue_inv s \<Longrightarrow> queue_inv (snd (snd (abort s)))"
  by (simp add: queue_inv_def abort_def AbortableBarrier_abort_def)

lemma queue_inv_push: "queue_inv s \<Longrightarrow> queue_inv (push_range_to_check p r s)"
  by (auto simp: queue_inv_def push_range_to_check_def split: option.splits)

lemma queue_inv_pop: "queue_inv s \<Longrightarrow> queue_inv (pop_range_to_check p s)"
  by (auto simp: queue_inv_def pop_range_to_check_def split: option.splits)

lemma queue_inv_enqueue:
  assumes "queue_inv s" "distinct (map fst tables)" "\<forall>p \<in> set (map fst tables). heap s p = None"
  shows "queue_inv (enqueue_tables_to_process tables s)"
proof -
  have fresh: "heap s p = None" if "p \<in> fst ` set tables" for p
    using assms(3) that by auto
  have known: "heap s p \<noteq> None"
    if "p \<in> set (tables_to_process s) \<union> set (tables_being_processed s)" for p
    using assms(1) that by (simp add: queue_inv_def)
  have "set (tables_to_process s) \<inter> fst ` set tables = {}"
    "set (tables_being_processed s) \<inter> fst ` set tables = {}"
    using fresh known by blast+
  with assms(1,2) show ?thesis
    by (auto simp: queue_inv_def enqueue_pending enqueue_heap_None)
qed

lemma queue_inv_perform: "queue_inv s \<Longrightarrow> possible e s \<Longrightarrow> queue_inv (perform e s)"
  by (cases e)
     (simp_all add: queue_inv_enqueue queue_inv_find_table_job queue_inv_borrow_work
        queue_inv_completed_table queue_inv_have_work_to_share queue_inv_abort
        queue_inv_push queue_inv_pop)

lemma offered_while_owned_possible: "queue_inv s \<Longrightarrow> offered_while_owned e s \<Longrightarrow> possible e s"
  by (cases e) (auto simp: queue_inv_def)

lemma queue_inv_new: "queue_inv (SyncQueue_new workers)"
  by (simp add: queue_inv_def SyncQueue_new_def)

lemma queue_inv_run:
  "queue_inv s \<Longrightarrow> run possible evs s = Some s' \<Longrightarrow> queue_inv s'"
proof (induction evs arbitrary: s)
  case Nil
  then show ?case by simp
next
  case (Cons e evs)
  from Cons.prems have ok: "possible e s" and r: "run possible evs (perform e s) = Some s'"
    by (auto split: if_splits)
  have "queue_inv (perform e s)" using Cons.prems(1) ok by (rule queue_inv_perform)
  then show ?case using r by (rule Cons.IH)
qed

subsection \<open>Pending or claimed\<close>

lemma held_once_perform:
  assumes "queue_inv s" "held_once p s" "possible e s" "e \<noteq> Completed_table p"
  shows "held_once p (perform e s)"
proof (cases e)
  case Find_table_job
  show ?thesis
  proof (cases "aborted s")
    case True
    with assms(2) Find_table_job show ?thesis
      by (simp add: find_table_job_def)
  next
    case False
    show ?thesis
    proof (cases "tables_to_process s")
      case Nil
      have "(\<exists>y. heap (start_sharing_work s) p = Some y) = (\<exists>y. heap s p = Some y)"
        using ssw_heap_None[of s p] by (simp only: not_None_eq[symmetric]) 
      with Nil False assms(2) Find_table_job show ?thesis
        by (simp add: find_table_job_def held_once_def)
    next
      case (Cons q qs)
      with False assms(1,2) Find_table_job show ?thesis
        by (auto simp: find_table_job_front held_once_def queue_inv_def)
    qed
  qed
next
  case Wake_in_borrow_work
  with assms(2) show ?thesis by (simp add: held_once_def)
next
  case (Completed_table q)
  with assms(4) have "p \<noteq> q" by auto
  with assms(2) Completed_table show ?thesis
    by (simp add: held_once_def completed_table_def Let_def set_erase_other)
next
  case (Have_work_to_share q)
  with assms(2) show ?thesis by (simp add: held_once_def have_work_to_share_def)
next
  case (Enqueue_tables_to_process tables)
  have fresh: "heap s q = None" if "q \<in> fst ` set tables" for q
    using assms(3) Enqueue_tables_to_process that by auto
  have known: "heap s q \<noteq> None"
    if "q \<in> set (tables_to_process s) \<union> set (tables_being_processed s)" for q
    using assms(1) that by (simp add: queue_inv_def)
  show ?thesis
  proof (cases "p \<in> fst ` set tables")
    case True
    with fresh known have "p \<notin> set (tables_being_processed s)" by blast
    with True Enqueue_tables_to_process show ?thesis
      by (simp add: held_once_def enqueue_pending)
  next
    case False
    with assms(2) Enqueue_tables_to_process show ?thesis
      by (simp add: held_once_def enqueue_pending enqueue_heap_None)
  qed
next
  case Abort
  with assms(2) show ?thesis by (simp add: held_once_def abort_def AbortableBarrier_abort_def)
next
  case (Push_range_to_check q r)
  with assms(2) show ?thesis
    by (auto simp: held_once_def push_range_to_check_def split: option.splits)
next
  case (Pop_range_to_check q)
  with assms(2) show ?thesis
    by (auto simp: held_once_def pop_range_to_check_def split: option.splits)
qed

lemma held_once_run:
  "queue_inv s \<Longrightarrow> held_once p s \<Longrightarrow> Completed_table p \<notin> set evs \<Longrightarrow>
     run possible evs s = Some s' \<Longrightarrow> held_once p s'"
proof (induction evs arbitrary: s)
  case Nil
  then show ?case by simp
next
  case (Cons e evs)
  from Cons.prems have ok: "possible e s" and r: "run possible evs (perform e s) = Some s'"
    and ne: "e \<noteq> Completed_table p" and rest: "Completed_table p \<notin> set evs"
    by (auto split: if_splits)
  have "queue_inv (perform e s)" using Cons.prems(1) ok by (rule queue_inv_perform)
  moreover have "held_once p (perform e s)" using Cons.prems(1,2) ok ne by (rule held_once_perform)
  ultimately show ?case using rest r by (rule Cons.IH)
qed

lemma retired_find_table_job: "retired p s \<Longrightarrow> retired p (snd (find_table_job s))"
proof (cases "aborted s")
  case True
  assume "retired p s"
  with True show ?thesis by (simp add: find_table_job_def)
next
  case False
  assume r: "retired p s"
  show ?thesis
  proof (cases "tables_to_process s")
    case Nil
    have "(\<exists>y. heap (start_sharing_work s) p = Some y) = (\<exists>y. heap s p = Some y)"
      using ssw_heap_None[of s p] by (simp only: not_None_eq[symmetric])
    with Nil False r show ?thesis by (simp add: find_table_job_def retired_def)
  next
    case (Cons q qs)
    with False r show ?thesis by (auto simp: find_table_job_front retired_def)
  qed
qed

lemma retired_perform:
  assumes "retired p s" and "possible e s"
  shows "retired p (perform e s)"
proof (cases e)
  case (Enqueue_tables_to_process tables)
  have "p \<notin> fst ` set tables" using assms Enqueue_tables_to_process by (auto simp: retired_def)
  with assms(1) Enqueue_tables_to_process show ?thesis
    by (simp add: retired_def enqueue_pending enqueue_heap_None)
next
  case Find_table_job
  with assms(1) show ?thesis by (simp add: retired_find_table_job)
next
  case Wake_in_borrow_work
  with assms(1) show ?thesis by (simp add: retired_def)
next
  case (Completed_table q)
  with assms(1) set_set_erase_subset[of q "tables_being_processed s"] show ?thesis
    by (auto simp: retired_def completed_table_def Let_def)
next
  case (Have_work_to_share q)
  with assms(1) show ?thesis by (simp add: retired_def have_work_to_share_def)
next
  case Abort
  with assms(1) show ?thesis by (simp add: retired_def abort_def AbortableBarrier_abort_def)
next
  case (Push_range_to_check q r)
  with assms(1) show ?thesis
    by (auto simp: retired_def push_range_to_check_def split: option.splits)
next
  case (Pop_range_to_check q)
  with assms(1) show ?thesis
    by (auto simp: retired_def pop_range_to_check_def split: option.splits)
qed

lemma retired_run: "retired p s \<Longrightarrow> run possible evs s = Some s' \<Longrightarrow> retired p s'"
proof (induction evs arbitrary: s)
  case Nil
  then show ?case by simp
next
  case (Cons e evs)
  from Cons.prems(2) have ok: "possible e s" and r: "run possible evs (perform e s) = Some s'"
    by (auto split: if_splits)
  have "retired p (perform e s)" using Cons.prems(1) ok by (rule retired_perform)
  then show ?case using r by (rule Cons.IH)
qed

lemma retired_completed_table:
  assumes "queue_inv s" and "p \<in> set (tables_being_processed s)"
  shows "retired p (snd (completed_table p s))"
proof -
  have "distinct (tables_being_processed s)"
    using assms(1) by (simp add: queue_inv_def strict_sorted_distinct)
  then have "p \<notin> set (set_erase p (tables_being_processed s))" by (simp add: set_set_erase)
  moreover have "p \<notin> set (tables_to_process s)" "heap s p \<noteq> None"
    using assms by (auto simp: queue_inv_def)
  ultimately show ?thesis by (simp add: retired_def completed_table_def Let_def)
qed

text \<open>\<open>completed_table\<close> takes a job out of the claimed set only: called for a job that
  is still pending, it leaves the job in the pending queue.\<close>
lemma completed_while_pending_stays_pending:
  "tables_to_process (snd (completed_table 1 (enqueue_tables_to_process [(1, T1)] (SyncQueue_new 2))))
     = [1]"
  by (simp add: scen)

text \<open>C3, as amended: after any sequence of calls, a job that was enqueued is never in
  both the pending queue and the claimed set; it is in one of them as long as
  \<open>completed_table\<close> has not been called for it; and once \<open>completed_table\<close> is
  called for it while it is in the claimed set, it is in neither of them after that
  call and after any further calls.\<close>
theorem job_held_at_most_once:
  assumes "run possible evs (SyncQueue_new workers) = Some s" and "heap s p \<noteq> None"
  shows "\<not> (p \<in> set (tables_to_process s) \<and> p \<in> set (tables_being_processed s)) \<and>
         (Completed_table p \<notin> set evs \<longrightarrow>
            p \<in> set (tables_to_process s) \<or> p \<in> set (tables_being_processed s)) \<and>
         (p \<in> set (tables_being_processed s) \<and>
          run possible (Completed_table p # later) s = Some s' \<longrightarrow>
            p \<notin> set (tables_to_process s') \<and> p \<notin> set (tables_being_processed s'))"
proof -
  have inv: "queue_inv s" using queue_inv_new assms(1) by (rule queue_inv_run)
  then have one: "\<not> (p \<in> set (tables_to_process s) \<and> p \<in> set (tables_being_processed s))"
    by (auto simp: queue_inv_def)
  have "held_once p (SyncQueue_new workers)" by (simp add: held_once_def SyncQueue_new_def)
  then have "Completed_table p \<notin> set evs \<Longrightarrow> held_once p s"
    using held_once_run[OF queue_inv_new _ _ assms(1)] by blast
  then have two: "Completed_table p \<notin> set evs \<longrightarrow>
      p \<in> set (tables_to_process s) \<or> p \<in> set (tables_being_processed s)"
    using assms(2) by (auto simp: held_once_def)
  have three: "p \<notin> set (tables_to_process s') \<and> p \<notin> set (tables_being_processed s')"
    if c: "p \<in> set (tables_being_processed s)"
      and r: "run possible (Completed_table p # later) s = Some s'"
  proof -
    from r have "run possible later (snd (completed_table p s)) = Some s'"
      by (simp split: if_splits)
    with retired_completed_table[OF inv c] have "retired p s'" by (rule retired_run)
    then show ?thesis by (simp add: retired_def)
  qed
  from one two three show ?thesis by blast
qed

text \<open>Table 1 enqueued and claimed: it is in the claimed set only. Its owner then
  completes it, a second table is enqueued and claimed: table 1 is in neither
  collection.\<close>
theorem job_held_at_most_once_witness:
  "run possible [Enqueue_tables_to_process [(1, T1)], Find_table_job] (SyncQueue_new 2) = Some owned_T1 \<and>
   heap owned_T1 1 \<noteq> None \<and>
   1 \<notin> set (tables_to_process owned_T1) \<and> 1 \<in> set (tables_being_processed owned_T1) \<and>
   run possible [Completed_table 1, Enqueue_tables_to_process [(2, T2)], Find_table_job] owned_T1
     = Some reused_after_T1 \<and>
   tables_being_processed reused_after_T1 = [2] \<and>
   1 \<notin> set (tables_to_process reused_after_T1) \<and> 1 \<notin> set (tables_being_processed reused_after_T1)"
  using job_held_at_most_once[of "[Enqueue_tables_to_process [(1, T1)], Find_table_job]" 2 owned_T1 1
      "[Enqueue_tables_to_process [(2, T2)], Find_table_job]" reused_after_T1]
  by (simp add: scen)

text \<open>C3 as stated fails: once its owner has called \<open>completed_table\<close>, the job of
  table 1 is in neither the pending queue nor the claimed set.\<close>

theorem completed_job_held_nowhere:
  "run possible [Enqueue_tables_to_process [(1, T1)], Find_table_job, Completed_table 1] (SyncQueue_new 2)
     = Some completed_T1 \<and>
   heap completed_T1 1 \<noteq> None \<and>
   1 \<notin> set (tables_to_process completed_T1) \<and>
   1 \<notin> set (tables_being_processed completed_T1)"
  by (simp add: scen)

subsection \<open>Jobs with work to share are claimed jobs\<close>

lemma shareable_owned_borrow_work: "shareable_owned s \<Longrightarrow> shareable_owned (snd (borrow_work s))"
  using scan_subset[of "heap s" "tables_with_work_to_share s"]
  by (auto simp: shareable_owned_def borrow_work_shareable)

lemma shareable_owned_find_table_job:
  "shareable_owned s \<Longrightarrow> shareable_owned (snd (find_table_job s))"
proof (cases "aborted s \<or> tables_to_process s = []")
  case True
  assume o: "shareable_owned s"
  have "tables_to_process s = [] \<Longrightarrow> shareable_owned (start_sharing_work s)"
    using o by (auto simp: shareable_owned_def ssw_shareable)
  with True o show ?thesis
    by (auto simp: find_table_job_def shareable_owned_borrow_work)
next
  case False
  assume o: "shareable_owned s"
  from False obtain p ps where p: "tables_to_process s = p # ps" by (cases "tables_to_process s") auto
  with False o show ?thesis
    by (auto simp: find_table_job_front shareable_owned_def)
qed

lemma shareable_owned_completed_table:
  "queue_inv s \<Longrightarrow> shareable_owned s \<Longrightarrow> shareable_owned (snd (completed_table p s))"
  by (auto simp: shareable_owned_def completed_table_def Let_def queue_inv_def
        set_set_erase strict_sorted_distinct)

lemma shareable_owned_perform:
  "queue_inv s \<Longrightarrow> shareable_owned s \<Longrightarrow> offered_while_owned e s \<Longrightarrow> shareable_owned (perform e s)"
proof (cases e)
  case Find_table_job
  assume "shareable_owned s"
  with Find_table_job show ?thesis by (simp add: shareable_owned_find_table_job)
next
  case Wake_in_borrow_work
  assume "shareable_owned s"
  with Wake_in_borrow_work show ?thesis by (simp add: shareable_owned_borrow_work)
next
  case (Completed_table p)
  assume "queue_inv s" "shareable_owned s"
  with Completed_table show ?thesis by (simp add: shareable_owned_completed_table)
next
  case (Have_work_to_share p)
  assume "shareable_owned s" "offered_while_owned e s"
  with Have_work_to_share show ?thesis by (auto simp: shareable_owned_def have_work_to_share_def)
next
  case (Enqueue_tables_to_process tables)
  assume "shareable_owned s"
  with Enqueue_tables_to_process show ?thesis by (simp add: shareable_owned_def)
next
  case Abort
  assume "shareable_owned s"
  with Abort show ?thesis by (simp add: shareable_owned_def abort_def AbortableBarrier_abort_def)
next
  case (Push_range_to_check p r)
  assume "shareable_owned s"
  with Push_range_to_check show ?thesis
    by (simp add: shareable_owned_def push_range_to_check_def split: option.splits)
next
  case (Pop_range_to_check p)
  assume "shareable_owned s"
  with Pop_range_to_check show ?thesis
    by (simp add: shareable_owned_def pop_range_to_check_def split: option.splits)
qed

lemma shareable_owned_run:
  "queue_inv s \<Longrightarrow> shareable_owned s \<Longrightarrow> run offered_while_owned evs s = Some s' \<Longrightarrow>
     queue_inv s' \<and> shareable_owned s'"
proof (induction evs arbitrary: s)
  case Nil
  then show ?case by simp
next
  case (Cons e evs)
  from Cons.prems have ok: "offered_while_owned e s" and r: "run offered_while_owned evs (perform e s) = Some s'"
    by (auto split: if_splits)
  from ok Cons.prems(1) have "possible e s" by (rule offered_while_owned_possible[rotated])
  with Cons.prems(1) have "queue_inv (perform e s)" by (rule queue_inv_perform)
  moreover from Cons.prems(1,2) ok have "shareable_owned (perform e s)" by (rule shareable_owned_perform)
  ultimately show ?case using r by (rule Cons.IH)
qed

text \<open>C4, as amended: after any sequence of calls in which \<open>have_work_to_share\<close> is only
  called for a job that is in the claimed set at that moment, the set of jobs with work
  to share is a subset of the claimed set.\<close>

theorem shareable_within_claimed:
  "run offered_while_owned evs (SyncQueue_new workers) = Some s \<Longrightarrow>
     set (tables_with_work_to_share s) \<subseteq> set (tables_being_processed s)"
  using shareable_owned_run[OF queue_inv_new, of workers evs s]
  by (simp add: shareable_owned_def SyncQueue_new_def)

text \<open>The owner of table 1 makes a range ready and offers the job while it owns it.\<close>

theorem shareable_within_claimed_witness:
  "run offered_while_owned
     [Enqueue_tables_to_process [(1, T1)], Find_table_job, Push_range_to_check 1 range_a, Have_work_to_share 1]
     (SyncQueue_new 2) = Some offered_T1 \<and>
   tables_with_work_to_share offered_T1 = [1] \<and> tables_being_processed offered_T1 = [1]"
  using shareable_within_claimed[of "[Enqueue_tables_to_process [(1, T1)], Find_table_job, Push_range_to_check 1 range_a, Have_work_to_share 1]" 2 offered_T1]
  by (simp add: scen)

text \<open>C4 as stated fails: \<open>have_work_to_share\<close> inserts whatever job it is given, so a
  call for a job that was already completed leaves that job in the set of jobs with work
  to share and not in the claimed set.\<close>

theorem offer_after_completion_not_claimed:
  "run possible [Enqueue_tables_to_process [(1, T1)], Find_table_job, Completed_table 1, Have_work_to_share 1]
     (SyncQueue_new 2) = Some (snd (have_work_to_share 1 completed_T1)) \<and>
   1 \<in> set (tables_with_work_to_share (snd (have_work_to_share 1 completed_T1))) \<and>
   1 \<notin> set (tables_being_processed (snd (have_work_to_share 1 completed_T1)))"
  by (simp add: scen)

section \<open>The order in which ready ranges are handed out\<close>

lemma enqueue_heap_Some:
  "heap (enqueue_tables_to_process tables s) p = Some j \<Longrightarrow>
     heap s p = Some j \<or> (\<exists>t. j = TableJob_new t)"
proof (induction tables arbitrary: s)
  case Nil
  then show ?case by simp
next
  case (Cons a tables)
  obtain q t where a: "a = (q, t)" by (cases a)
  define s1 where "s1 = s\<lparr>heap := (heap s)(q \<mapsto> TableJob_new t),
                          tables_to_process := tables_to_process s @ [q]\<rparr>"
  from Cons.prems a have "heap (enqueue_tables_to_process tables s1) p = Some j"
    by (simp add: s1_def)
  then have "heap s1 p = Some j \<or> (\<exists>t. j = TableJob_new t)" by (rule Cons.IH)
  then show ?case by (auto simp: s1_def split: if_splits)
qed

lemma ranges_ordered_enqueue:
  "ranges_ordered s \<Longrightarrow> ranges_ordered (enqueue_tables_to_process tables s)"
  unfolding ranges_ordered_def
  using enqueue_heap_Some[of tables s] is_heap_Nil[of lower_priority]
  by (fastforce simp: TableJob_new_def)

lemma ranges_ordered_ssw: "ranges_ordered s \<Longrightarrow> ranges_ordered (start_sharing_work s)"
  by (auto simp: ranges_ordered_def ssw_heap publish_def split: if_splits)

lemma ranges_ordered_find_table_job: "ranges_ordered s \<Longrightarrow> ranges_ordered (snd (find_table_job s))"
proof -
  assume o: "ranges_ordered s"
  have "heap (snd (find_table_job s)) = heap s \<or> heap (snd (find_table_job s)) = heap (start_sharing_work s)"
    by (simp add: find_table_job_def split: list.splits)
  with o ranges_ordered_ssw[OF o] show ?thesis
    by (auto simp: ranges_ordered_def)
qed

lemma ranges_ordered_push: "ranges_ordered s \<Longrightarrow> ranges_ordered (push_range_to_check p r s)"
  by (auto simp: ranges_ordered_def push_range_to_check_def is_heap_pq_push split: option.splits if_splits)

lemma ranges_ordered_pop: "ranges_ordered s \<Longrightarrow> ranges_ordered (pop_range_to_check p s)"
  by (auto simp: ranges_ordered_def pop_range_to_check_def split: option.splits if_splits
           dest: is_heap_pq_pop)

lemma ranges_ordered_perform: "ranges_ordered s \<Longrightarrow> ranges_ordered (perform e s)"
proof (cases e)
  case (Enqueue_tables_to_process tables)
  assume "ranges_ordered s"
  with Enqueue_tables_to_process show ?thesis by (simp add: ranges_ordered_enqueue)
next
  case Find_table_job
  assume "ranges_ordered s"
  with Find_table_job show ?thesis by (simp add: ranges_ordered_find_table_job)
next
  case Wake_in_borrow_work
  assume "ranges_ordered s"
  with Wake_in_borrow_work show ?thesis by (simp add: ranges_ordered_def)
next
  case (Completed_table p)
  assume "ranges_ordered s"
  with Completed_table show ?thesis by (simp add: ranges_ordered_def completed_table_def Let_def)
next
  case (Have_work_to_share p)
  assume "ranges_ordered s"
  with Have_work_to_share show ?thesis by (simp add: ranges_ordered_def have_work_to_share_def)
next
  case Abort
  assume "ranges_ordered s"
  with Abort show ?thesis by (simp add: ranges_ordered_def abort_def AbortableBarrier_abort_def)
next
  case (Push_range_to_check p r)
  assume "ranges_ordered s"
  with Push_range_to_check show ?thesis by (simp add: ranges_ordered_push)
next
  case (Pop_range_to_check p)
  assume "ranges_ordered s"
  with Pop_range_to_check show ?thesis by (simp add: ranges_ordered_pop)
qed

lemma ranges_ordered_run:
  "ranges_ordered s \<Longrightarrow> run ok evs s = Some s' \<Longrightarrow> ranges_ordered s'"
proof (induction evs arbitrary: s)
  case Nil
  then show ?case by simp
next
  case (Cons e evs)
  from Cons.prems(2) have r: "run ok evs (perform e s) = Some s'" by (auto split: if_splits)
  have "ranges_ordered (perform e s)" using Cons.prems(1) by (rule ranges_ordered_perform)
  then show ?case using r by (rule Cons.IH)
qed

lemma is_heap_top_highest:
  assumes "is_heap lower_priority q" and "pq_top q = Some t"
  shows "t \<in> set q \<and> (\<forall>r \<in> set q. priority r \<le> priority t)"
proof
  from assms(2) have t: "q \<noteq> []" "q ! 0 = t" by (cases q; simp add: pq_top_def)+
  then show "t \<in> set q" by (metis length_greater_0_conv nth_mem)
  show "\<forall>r \<in> set q. priority r \<le> priority t"
  proof
    fix r assume "r \<in> set q"
    then obtain i where i: "i < length q" "q ! i = r" by (auto simp: in_set_conv_nth)
    from is_heap_top[OF assms(1) i(1)] i t show "priority r \<le> priority t" by simp
  qed
qed

text \<open>C6: in every table job, after any sequence of calls and of pushes and pops of ready
  ranges, the range at the top of \<open>ranges_to_check\<close>, the one a consumer gets first, is
  one of the ranges present and no range present has a higher priority. Nothing is said
  of which range is at the top among several of the highest priority.\<close>
theorem first_range_has_highest_priority:
  assumes "run possible evs (SyncQueue_new workers) = Some s"
    and "heap s p = Some table_job"
    and "pq_top (ranges_to_check table_job) = Some t"
  shows "t \<in> set (ranges_to_check table_job) \<and>
         (\<forall>r \<in> set (ranges_to_check table_job). priority r \<le> priority t)"
proof -
  have "ranges_ordered (SyncQueue_new workers)" by (simp add: ranges_ordered_def SyncQueue_new_def)
  then have "ranges_ordered s" using assms(1) by (rule ranges_ordered_run)
  with assms(2) have "is_heap lower_priority (ranges_to_check table_job)"
    by (simp add: ranges_ordered_def)
  then show ?thesis using assms(3) by (rule is_heap_top_highest)
qed

text \<open>Ranges of priorities 3, 7 and 5 pushed in that order: the one of priority 7 is at
  the top.\<close>
theorem first_range_has_highest_priority_witness:
  "run possible
     [Enqueue_tables_to_process [(1, T1)], Find_table_job, Push_range_to_check 1 range_a,
      Push_range_to_check 1 range_b, Push_range_to_check 1 range_c] (SyncQueue_new 2)
     = Some three_ready_T1 \<and>
   map_option ranges_to_check (heap three_ready_T1 1) = Some [range_b, range_a, range_c] \<and>
   pq_top [range_b, range_a, range_c] = Some range_b \<and>
   priority range_a \<le> priority range_b \<and> priority range_c \<le> priority range_b"
  using first_range_has_highest_priority[of "[Enqueue_tables_to_process [(1, T1)], Find_table_job, Push_range_to_check 1 range_a,
      Push_range_to_check 1 range_b, Push_range_to_check 1 range_c]" 2 three_ready_T1 1
      "the (heap three_ready_T1 1)" range_b]
  by (simp add: scen)

section \<open>Cancellation\<close>

text \<open>C1: the claim does not hold of the code. A worker asks for a job while table 1 is
  owned by another worker, finds nothing to borrow and waits. The run is then aborted.
  When the waiting worker runs the loop of \<open>borrow_work\<close> again, the loop does not look
  at the \<open>aborted\<close> flag: the run is not finished and nothing is shared, so the
  worker waits again instead of throwing \<open>aborted_error\<close>.\<close>

theorem abort_leaves_borrower_waiting:
  "fst (find_table_job owned_T1) = Wait \<and>
   fst (abort (snd (find_table_job owned_T1))) \<and>
   aborted aborted_while_waiting \<and>
   borrow_work aborted_while_waiting = (Wait, aborted_while_waiting)"
  by (simp add: scen)

text \<open>C9: once the run is aborted, \<open>find_table_job\<close> throws \<open>aborted_error\<close> on entry,
  whatever the pending queue holds, and returns no job.\<close>
theorem find_table_job_aborted:
  "aborted s \<Longrightarrow>
     fst (find_table_job s) = Throw aborted_error \<and> (\<forall>r. fst (find_table_job s) \<noteq> Return r)"
  by (simp add: find_table_job_def)

theorem find_table_job_aborted_witness:
  "aborted (enqueue_tables_to_process [(1, \<lparr>id_from_name = ''t1'', primary_key_subdividable = True\<rparr>)]
              (snd (AbortableBarrier_abort (SyncQueue_new 2)))) \<and>
   tables_to_process (enqueue_tables_to_process [(1, \<lparr>id_from_name = ''t1'', primary_key_subdividable = True\<rparr>)]
              (snd (AbortableBarrier_abort (SyncQueue_new 2)))) = [1] \<and>
   fst (find_table_job (enqueue_tables_to_process [(1, \<lparr>id_from_name = ''t1'', primary_key_subdividable = True\<rparr>)]
              (snd (AbortableBarrier_abort (SyncQueue_new 2))))) = Throw aborted_error"
  using find_table_job_aborted
    [of "enqueue_tables_to_process [(1, \<lparr>id_from_name = ''t1'', primary_key_subdividable = True\<rparr>)]
              (snd (AbortableBarrier_abort (SyncQueue_new 2)))"]
  by (simp add: AbortableBarrier_abort_def SyncQueue_new_def)

text \<open>C10: a \<open>find_table_job\<close> that throws leaves the queue as it found it: the pending
  queue, both sets, the sharing flag and every job are what they were.\<close>
theorem find_table_job_throw_unchanged:
  "fst (find_table_job s) = Throw e \<Longrightarrow> snd (find_table_job s) = s"
  using borrow_work_never_throws
  by (auto simp: find_table_job_def split: if_splits list.splits)

theorem find_table_job_throw_unchanged_witness:
  "fst (find_table_job (snd (AbortableBarrier_abort (SyncQueue_new 2)))) = Throw aborted_error \<and>
   snd (find_table_job (snd (AbortableBarrier_abort (SyncQueue_new 2)))) =
     snd (AbortableBarrier_abort (SyncQueue_new 2))"
  using find_table_job_throw_unchanged
    [of "snd (AbortableBarrier_abort (SyncQueue_new 2))" aborted_error]
  by (simp add: find_table_job_def AbortableBarrier_abort_def SyncQueue_new_def)

end
